theory Spec2Isabelle
  imports Main "HOL-Library.AList"
begin

section \<open>DeltaTransformer: the delta orchestrator of metro-bundler\<close>

text \<open>
  A shallow embedding of \<^verbatim>\<open>packages/metro-bundler/src/DeltaBundler/DeltaTransformer.js\<close>.
  The collaborators of the class (bundler, resolver, delta calculator, modules) are
  records whose fields are the answers of their methods; an asynchronous method that
  may reject answers with a value of \<open>error + 'a\<close> (\<open>Inl\<close> the rejection).
  A method \<^verbatim>\<open>_name\<close> of the class is the constant \<open>name\<close> here (an Isabelle name
  starts with a letter); \<^verbatim>\<open>_getDelta\<close> is \<open>getDelta_inner\<close>, and the public
  \<^verbatim>\<open>getDelta\<close> is a transition system on the state of the build promise.
\<close>

subsection \<open>JavaScript values\<close>

text \<open>A rejection reason or thrown value.\<close>

datatype error = Error string

text \<open>
  \<^verbatim>\<open>String(n)\<close> and \<^verbatim>\<open>JSON.stringify(n)\<close> of an integer module id: its decimal
  numeral, with a minus sign below zero. (Both agree on integers; ids beyond
  \<open>10\<^sup>2\<^sup>1\<close>, where JavaScript switches to exponent notation, are out of the model.)
\<close>

definition digit :: "nat \<Rightarrow> char" where
  "digit d = ''0123456789'' ! d"

fun decimal :: "nat \<Rightarrow> string" where
  "decimal n = (if n < 10 then [digit n] else decimal (n div 10) @ [digit (n mod 10)])"

definition Number_toString :: "int \<Rightarrow> string" where
  "Number_toString i = (if i < 0 then CHR ''-'' # decimal (nat (- i)) else decimal (nat i))"

text \<open>
  A JavaScript \<^verbatim>\<open>Map\<close>: an association list with unique keys, in insertion order.
  \<^verbatim>\<open>set\<close> replaces the value of a key in place, or appends a new key; \<^verbatim>\<open>new Map(pairs)\<close>
  sets the pairs one after the other.
\<close>

definition Map_set :: "('k \<times> 'v) list \<Rightarrow> 'k \<Rightarrow> 'v \<Rightarrow> ('k \<times> 'v) list" where
  "Map_set m k v = AList.update k v m"

definition Map_get :: "('k \<times> 'v) list \<Rightarrow> 'k \<Rightarrow> 'v option" where
  "Map_get m k = map_of m k"

definition new_Map :: "('k \<times> 'v) list \<Rightarrow> ('k \<times> 'v) list" where
  "new_Map pairs = foldl (\<lambda>m (k, v). Map_set m k v) [] pairs"

text \<open>\<^verbatim>\<open>array.filter(Boolean)\<close> on an array of objects and \<^verbatim>\<open>undefined\<close>.\<close>

definition filter_Boolean :: "'a option list \<Rightarrow> 'a list" where
  "filter_Boolean xs = concat (map (\<lambda>x. case x of None \<Rightarrow> [] | Some y \<Rightarrow> [y]) xs)"

subsection \<open>The data model (lines 19-48)\<close>

text \<open>
  \<^verbatim>\<open>RawMapping\<close> is declared in \<^verbatim>\<open>../Bundler/source-map\<close>: a tuple of numbers with
  an optional name. A source map value is an array of raw mappings, a standard source
  map (any other object or string), \<^verbatim>\<open>undefined\<close> or \<^verbatim>\<open>null\<close>.
\<close>

datatype RawMapping = RawMapping "nat list" "string option"

datatype SourceMap = RawMappings "RawMapping list" | StandardMap string | Undefined | Null

record DeltaEntry =
  code :: string
  map_js :: SourceMap
  name :: string
  path :: string
  source :: string

type_synonym DeltaEntries = "(int \<times> DeltaEntry option) list"

record DeltaTransformResponse =
  pre :: DeltaEntries
  post :: DeltaEntries
  delta :: DeltaEntries
  inverseDependencies :: "string \<rightharpoonup> int list"
  reset :: bool

text \<open>The options of the transform workers: opaque here.\<close>

datatype JSTransformerOptions = JSTransformerOptions nat

text \<open>What \<^verbatim>\<open>module.read\<close> and \<^verbatim>\<open>_getMetadata\<close> answer (lines 369-374).\<close>

record Metadata =
  md_code :: string
  md_dependencyOffsets :: "int list option"
  md_map :: SourceMap
  md_source :: string

text \<open>A module of node-haste: its path and the answers of its methods.\<close>

record Module =
  m_path :: string
  getName :: "error + string"
  isAsset :: bool
  read :: "JSTransformerOptions \<Rightarrow> error + Metadata"

text \<open>\<^verbatim>\<open>generateAssetObjAndCode\<close> answers \<^verbatim>\<open>{code, meta: {dependencyOffsets}}\<close>.\<close>

record Asset =
  asset_code :: string
  asset_dependencyOffsets :: "int list option"

record WrapModuleArgs =
  wm_module :: Module
  wm_getModuleId :: "string \<Rightarrow> int"
  wm_dependencyPairs :: "(string \<times> Module) list"
  wm_dependencyOffsets :: "int list"
  wm_name :: string
  wm_code :: string
  wm_map :: SourceMap
  wm_minify :: bool
  wm_dev :: bool

record Wrapped =
  w_code :: string
  w_map :: SourceMap

text \<open>
  The resolver. \<open>createPolyfill\<close> and \<open>getAbsolutePath\<close> are the methods of its
  dependency graph (\<^verbatim>\<open>resolver.getDependencyGraph()\<close>); \<open>createPolyfill\<close> takes the
  \<^verbatim>\<open>file\<close>, the \<^verbatim>\<open>id\<close> and the \<^verbatim>\<open>dependencies\<close> of its argument.
\<close>

record Resolver =
  getModuleSystemDependencies :: "bool \<Rightarrow> Module list"
  createPolyfill :: "string \<Rightarrow> string \<Rightarrow> string list \<Rightarrow> Module"
  getAbsolutePath :: "string \<Rightarrow> string"
  wrapModule :: "WrapModuleArgs \<Rightarrow> error + Wrapped"
  resolveRequires ::
    "Module \<Rightarrow> (string \<Rightarrow> int) \<Rightarrow> string \<Rightarrow> (string \<times> Module) list \<Rightarrow> int list \<Rightarrow> error + string"

record Bundler =
  getResolver :: "error + Resolver"
  generateAssetObjAndCode :: "Module \<Rightarrow> string list \<Rightarrow> string option \<Rightarrow> error + Asset"
  getModuleForPath :: "string \<Rightarrow> error + Module"
  getGetModuleIdFn :: "string \<Rightarrow> int"

record BundleOptions =
  assetPlugins :: "string list"
  dev :: bool
  entryFile :: string
  minify :: bool
  platform :: "string option"
  runBeforeMainModule :: "string list"
  wrapModules :: bool

text \<open>What the delta calculator's \<^verbatim>\<open>getDelta\<close> resolves to.\<close>

record DeltaResult =
  modified :: "(string \<times> Module) list"
  deleted :: "string list"
  d_reset :: bool

record DeltaCalculator =
  dc_getDelta :: "error + DeltaResult"
  getTransformerOptions :: JSTransformerOptions
  getDependencyPairs :: "(string \<times> (string \<times> Module) list) list"
  getModulesByName :: "(string \<times> Module) list"
  dc_getInverseDependencies :: "(string \<times> string list) list"

text \<open>
  The fields of a \<^verbatim>\<open>DeltaTransformer\<close> (lines 68-74, without the build promise, which
  is the state of the last section). \<open>getModuleId\<close> reads the \<^verbatim>\<open>path\<close> of its argument,
  as its type \<^verbatim>\<open>({path: string}) => number\<close> says.
\<close>

record DeltaTransformer =
  bundler :: Bundler
  getPolyfills :: "string option \<Rightarrow> string list"
  polyfillModuleNames :: "string list"
  getModuleId :: "string \<Rightarrow> int"
  deltaCalculator :: DeltaCalculator
  bundleOptions :: BundleOptions

text \<open>The options of the constructor (lines 45-48) and the constructor (lines 76-92).\<close>

record Options =
  o_getPolyfills :: "string option \<Rightarrow> string list"
  o_polyfillModuleNames :: "string list"

definition new_DeltaTransformer ::
  "Bundler \<Rightarrow> DeltaCalculator \<Rightarrow> Options \<Rightarrow> BundleOptions \<Rightarrow> DeltaTransformer" where
  "new_DeltaTransformer bundler0 deltaCalculator0 options bundleOptions0 =
     \<lparr>bundler = bundler0,
      getPolyfills = o_getPolyfills options,
      polyfillModuleNames = o_polyfillModuleNames options,
      getModuleId = getGetModuleIdFn bundler0,
      deltaCalculator = deltaCalculator0,
      bundleOptions = bundleOptions0\<rparr>"

subsection \<open>Joining promises\<close>

text \<open>
  \<^verbatim>\<open>Promise.all\<close> fulfils with all the values, in order, or rejects with the reason of
  the promise that rejected first in time. Which one that is depends on the scheduling
  of the workers: \<open>first\<close> names it, given the indices of the promises that reject
  (the leftmost one when \<open>first\<close> names none of them).
\<close>

definition Promise_all :: "(nat list \<Rightarrow> nat) \<Rightarrow> (error + 'a) list \<Rightarrow> error + 'a list" where
  "Promise_all first ps =
     (let rejected = filter (\<lambda>i. isl (ps ! i)) [0..<length ps] in
      if rejected = [] then Inr (map projr ps)
      else Inl (projl (ps ! (if first rejected \<in> set rejected then first rejected
                             else hd rejected))))"

text \<open>The same for the pair of line 318, whose two values have different types.\<close>

definition Promise_all2 ::
  "(nat list \<Rightarrow> nat) \<Rightarrow> error + 'a \<Rightarrow> error + 'b \<Rightarrow> error + ('a \<times> 'b)" where
  "Promise_all2 first a b =
     (case a of
        Inr x \<Rightarrow> (case b of Inr y \<Rightarrow> Inr (x, y) | Inl e \<Rightarrow> Inl e)
      | Inl e \<Rightarrow> (case b of Inr y \<Rightarrow> Inl e
                  | Inl e' \<Rightarrow> Inl (if first [0, 1] = 1 then e' else e)))"

subsection \<open>The inverse dependencies (lines 278-290)\<close>

text \<open>
  The input is a \<^verbatim>\<open>Map\<close> from paths to \<^verbatim>\<open>Set\<close>s of paths, each in its iteration order;
  the output object is a map from its property keys (the ids as strings) to arrays
  of ids.
\<close>

definition getInverseDependencies ::
  "DeltaTransformer \<Rightarrow> (string \<times> string list) list \<Rightarrow> (string \<rightharpoonup> int list)" where
  "getInverseDependencies this inverseDeps =
     foldl (\<lambda>output (key, dependencies).
              output(Number_toString (getModuleId this key) \<mapsto>
                       map (\<lambda>dep. getModuleId this dep) dependencies))
       Map.empty inverseDeps"

subsection \<open>The module transform pipeline (lines 292-391)\<close>

definition getMetadata ::
  "DeltaTransformer \<Rightarrow> Module \<Rightarrow> JSTransformerOptions \<Rightarrow> error + Metadata" where
  "getMetadata this module transformOptions =
     (if isAsset module then
        (case generateAssetObjAndCode (bundler this) module
                (assetPlugins (bundleOptions this)) (platform (bundleOptions this)) of
           Inl e \<Rightarrow> Inl e
         | Inr asset \<Rightarrow>
             Inr \<lparr>md_code = asset_code asset,
                  md_dependencyOffsets = asset_dependencyOffsets asset,
                  md_map = Undefined,
                  md_source = []\<rparr>)
      else read module transformOptions)"

text \<open>\<^verbatim>\<open>x || []\<close> on an optional array.\<close>

definition or_empty :: "'a list option \<Rightarrow> 'a list" where
  "or_empty x = (case x of None \<Rightarrow> [] | Some xs \<Rightarrow> xs)"

text \<open>
  Lines 325-346, the value of \<^verbatim>\<open>wrapped\<close>: the resolver wraps the module, or
  resolves its requires in place.
\<close>

definition wrap_step ::
  "DeltaTransformer \<Rightarrow> Module \<Rightarrow> Resolver \<Rightarrow> string \<Rightarrow> Metadata \<Rightarrow>
   (string \<times> Module) list \<Rightarrow> error + Wrapped" where
  "wrap_step this module resolver name0 metadata dependencyPairsForModule =
     (if wrapModules (bundleOptions this) then
        wrapModule resolver
          \<lparr>wm_module = module,
           wm_getModuleId = getModuleId this,
           wm_dependencyPairs = dependencyPairsForModule,
           wm_dependencyOffsets = or_empty (md_dependencyOffsets metadata),
           wm_name = name0,
           wm_code = md_code metadata,
           wm_map = md_map metadata,
           wm_minify = minify (bundleOptions this),
           wm_dev = dev (bundleOptions this)\<rparr>
      else
        (case resolveRequires resolver module (getModuleId this) (md_code metadata)
                dependencyPairsForModule (or_empty (md_dependencyOffsets metadata)) of
           Inl e \<Rightarrow> Inl e
         | Inr c \<Rightarrow> Inr \<lparr>w_code = c, w_map = md_map metadata\<rparr>))"

text \<open>Line 352: \<^verbatim>\<open>Array.isArray(wrapped.map) ? wrapped.map : undefined\<close>.\<close>

definition only_raw_mappings :: "SourceMap \<Rightarrow> SourceMap" where
  "only_raw_mappings m = (case m of RawMappings ms \<Rightarrow> RawMappings ms | _ \<Rightarrow> Undefined)"

text \<open>
  \<open>sched\<close> is the scheduling of the promises joined by \<^verbatim>\<open>Promise.all\<close>: for the
  modules of a join and the indices of the promises that reject, the one that
  rejects first.
\<close>

definition transformModule ::
  "(Module list \<Rightarrow> nat list \<Rightarrow> nat) \<Rightarrow> DeltaTransformer \<Rightarrow> Module \<Rightarrow> Resolver \<Rightarrow>
   JSTransformerOptions \<Rightarrow> (string \<times> (string \<times> Module) list) list \<Rightarrow>
   error + (int \<times> DeltaEntry option)" where
  "transformModule sched this module resolver transformOptions dependencyPairs =
     (case Promise_all2 (sched [module]) (getName module)
             (getMetadata this module transformOptions) of
        Inl e \<Rightarrow> Inl e
      | Inr (name0, metadata) \<Rightarrow>
          (case wrap_step this module resolver name0 metadata
                  (or_empty (Map_get dependencyPairs (m_path module))) of
             Inl e \<Rightarrow> Inl e
           | Inr wrapped \<Rightarrow>
               Inr (getModuleId this (m_path module),
                    Some \<lparr>code = w_code wrapped,
                          map_js = only_raw_mappings (w_map wrapped),
                          name = name0,
                          path = m_path module,
                          source = md_source metadata\<rparr>)))"

definition transformModules ::
  "(Module list \<Rightarrow> nat list \<Rightarrow> nat) \<Rightarrow> DeltaTransformer \<Rightarrow> Module list \<Rightarrow> Resolver \<Rightarrow>
   JSTransformerOptions \<Rightarrow> (string \<times> (string \<times> Module) list) list \<Rightarrow>
   error + DeltaEntries" where
  "transformModules sched this modules resolver transformOptions dependencyPairs =
     (case Promise_all (sched modules)
             (map (\<lambda>module. transformModule sched this module resolver transformOptions
                                dependencyPairs) modules) of
        Inl e \<Rightarrow> Inl e
      | Inr pairs \<Rightarrow> Inr (new_Map pairs))"

subsection \<open>The preamble and the postamble (lines 197-273)\<close>

text \<open>Lines 205-223: the modules of the preamble.\<close>

definition prepend_modules :: "DeltaTransformer \<Rightarrow> Resolver \<Rightarrow> Module list" where
  "prepend_modules this resolver =
     (let names = getPolyfills this (platform (bundleOptions this)) @ polyfillModuleNames this;
          moduleSystemDeps = getModuleSystemDependencies resolver (dev (bundleOptions this))
      in moduleSystemDeps @
           map (\<lambda>polyfillModuleName.
                  createPolyfill resolver polyfillModuleName polyfillModuleName []) names)"

definition getPrepend ::
  "(Module list \<Rightarrow> nat list \<Rightarrow> nat) \<Rightarrow> DeltaTransformer \<Rightarrow> JSTransformerOptions \<Rightarrow>
   (string \<times> (string \<times> Module) list) list \<Rightarrow> error + DeltaEntries" where
  "getPrepend sched this transformOptions dependencyPairs =
     (case getResolver (bundler this) of
        Inl e \<Rightarrow> Inl e
      | Inr resolver \<Rightarrow>
          transformModules sched this (prepend_modules this resolver) resolver
            transformOptions dependencyPairs)"

text \<open>Lines 256-271: the entry of \<^verbatim>\<open>post\<close> that requires a module id.\<close>

definition require_entry :: "int \<Rightarrow> int \<times> DeltaEntry option" where
  "require_entry moduleId =
     (let code0 = '';require('' @ Number_toString moduleId @ '');'';
          name0 = ''require-'' @ Number_toString moduleId;
          path0 = name0 @ ''.js''
      in (moduleId,
          Some \<lparr>code = code0, map_js = Null, name = name0, path = path0, source = code0\<rparr>))"

text \<open>Lines 251-255: the ids of the modules to require, the entry point last.\<close>

definition append_ids :: "DeltaTransformer \<Rightarrow> (string \<times> Module) list \<Rightarrow> Module \<Rightarrow> int list" where
  "append_ids this modulesByName entryPointModule =
     map (\<lambda>m. getModuleId this (m_path m))
       (filter_Boolean
          (map (\<lambda>name0. Map_get modulesByName name0) (runBeforeMainModule (bundleOptions this))
           @ [Some entryPointModule]))"

definition getAppend ::
  "DeltaTransformer \<Rightarrow> (string \<times> (string \<times> Module) list) list \<Rightarrow>
   (string \<times> Module) list \<Rightarrow> error + DeltaEntries" where
  "getAppend this dependencyPairs modulesByName =
     (case getResolver (bundler this) of
        Inl e \<Rightarrow> Inl e
      | Inr resolver \<Rightarrow>
          (let absPath = getAbsolutePath resolver (entryFile (bundleOptions this)) in
           case getModuleForPath (bundler this) absPath of
             Inl e \<Rightarrow> Inl e
           | Inr entryPointModule \<Rightarrow>
               Inr (new_Map
                     (map require_entry (append_ids this modulesByName entryPointModule)))))"

subsection \<open>One delta computation (lines 148-195)\<close>

definition getDelta_inner ::
  "(Module list \<Rightarrow> nat list \<Rightarrow> nat) \<Rightarrow> DeltaTransformer \<Rightarrow> error + DeltaTransformResponse" where
  "getDelta_inner sched this =
     (case dc_getDelta (deltaCalculator this) of
        Inl e \<Rightarrow> Inl e
      | Inr d \<Rightarrow>
          (let transformerOptions = getTransformerOptions (deltaCalculator this);
               dependencyPairs = getDependencyPairs (deltaCalculator this) in
           case getResolver (bundler this) of
             Inl e \<Rightarrow> Inl e
           | Inr resolver \<Rightarrow>
               (case transformModules sched this (map snd (modified d)) resolver
                       transformerOptions dependencyPairs of
                  Inl e \<Rightarrow> Inl e
                | Inr transformed \<Rightarrow>
                    (let modifiedDelta =
                           foldl (\<lambda>m id0. Map_set m (getModuleId this id0) None)
                             transformed (deleted d) in
                     case (if d_reset d
                           then getPrepend sched this transformerOptions dependencyPairs
                           else Inr []) of
                       Inl e \<Rightarrow> Inl e
                     | Inr prependSources \<Rightarrow>
                         (case (if d_reset d
                                then getAppend this dependencyPairs
                                       (getModulesByName (deltaCalculator this))
                                else Inr []) of
                            Inl e \<Rightarrow> Inl e
                          | Inr appendSources \<Rightarrow>
                              Inr \<lparr>pre = prependSources,
                                   post = appendSources,
                                   delta = modifiedDelta,
                                   inverseDependencies =
                                     getInverseDependencies this
                                       (dc_getInverseDependencies (deltaCalculator this)),
                                   reset = d_reset d\<rparr>)))))"

subsection \<open>The public \<^verbatim>\<open>getDelta\<close> (lines 127-146)\<close>

text \<open>
  \<^verbatim>\<open>getDelta\<close> is an async function: a call runs until its first \<^verbatim>\<open>await\<close>, and is
  resumed by a microtask once the awaited promise has settled. A call waits at one of
  two places: line 132 (the build promise it found on arrival) or line 140 (the
  promise of the build it started itself).
\<close>

datatype AwaitPoint = AwaitPrevious | AwaitOwn

type_synonym Outcome = "error + DeltaTransformResponse"

text \<open>
  The state of one \<^verbatim>\<open>DeltaTransformer\<close> and of the calls of its \<^verbatim>\<open>getDelta\<close>.
  Build promises are numbered in the order in which \<^verbatim>\<open>_getDelta()\<close> created them, calls
  in the order of their arrival.
  \<^item> \<open>currentBuildPromise\<close>: the field \<^verbatim>\<open>_currentBuildPromise\<close> (\<open>None\<close>: undefined or null);
  \<^item> \<open>builds\<close>: the state of each build promise (\<open>None\<close>: pending);
  \<^item> \<open>startedBy\<close>: the call that started each build;
  \<^item> \<open>reactions\<close>: the calls awaiting a pending promise \<open>(promise, call, place)\<close>, in the
    order in which they began to wait;
  \<^item> \<open>microtasks\<close>: the queue of calls to resume \<open>(call, place, outcome of the promise)\<close>;
  \<^item> \<open>calls\<close>: what each call's own promise settled with (\<open>None\<close>: pending).
\<close>

record Orchestrator =
  currentBuildPromise :: "nat option"
  builds :: "Outcome option list"
  startedBy :: "nat list"
  reactions :: "(nat \<times> nat \<times> AwaitPoint) list"
  microtasks :: "(nat \<times> AwaitPoint \<times> Outcome) list"
  calls :: "Outcome option list"

text \<open>After the constructor (lines 76-92): no build promise yet.\<close>

definition constructed :: Orchestrator where
  "constructed =
     \<lparr>currentBuildPromise = None, builds = [], startedBy = [], reactions = [],
      microtasks = [], calls = []\<rparr>"

text \<open>
  Lines 135-140, run by call \<open>c\<close>: \<^verbatim>\<open>_getDelta()\<close> starts a computation (its promise is
  pending, since \<^verbatim>\<open>_getDelta\<close> awaits the delta calculator first), the promise is stored
  and the call awaits it.
\<close>

definition start_build :: "nat \<Rightarrow> Orchestrator \<Rightarrow> Orchestrator" where
  "start_build c s =
     s\<lparr>currentBuildPromise := Some (length (builds s)),
       builds := builds s @ [None],
       startedBy := startedBy s @ [c],
       reactions := reactions s @ [(length (builds s), c, AwaitOwn)]\<rparr>"

text \<open>
  \<^verbatim>\<open>await p\<close> by call \<open>c\<close>: wait for a pending promise, or queue the resumption when
  the promise has settled already. (A promise that was never created does not settle.)
\<close>

definition await_promise :: "nat \<Rightarrow> nat \<Rightarrow> AwaitPoint \<Rightarrow> Orchestrator \<Rightarrow> Orchestrator" where
  "await_promise p c a s =
     (if p < length (builds s) then
        (case builds s ! p of
           None \<Rightarrow> s\<lparr>reactions := reactions s @ [(p, c, a)]\<rparr>
         | Some out \<Rightarrow> s\<lparr>microtasks := microtasks s @ [(c, a, out)]\<rparr>)
      else s)"

text \<open>A call of \<^verbatim>\<open>getDelta()\<close> arrives and runs to its first \<^verbatim>\<open>await\<close> (lines 131-140).\<close>

definition getDelta_call :: "Orchestrator \<Rightarrow> Orchestrator" where
  "getDelta_call s =
     (let c = length (calls s); s1 = s\<lparr>calls := calls s @ [None]\<rparr> in
      case currentBuildPromise s of
        Some p \<Rightarrow> await_promise p c AwaitPrevious s1
      | None \<Rightarrow> start_build c s1)"

text \<open>
  The computation behind build promise \<open>p\<close> finishes with \<open>out\<close>: the promise settles
  and the calls awaiting it are queued, in the order in which they began to wait.
\<close>

definition settle :: "nat \<Rightarrow> Outcome \<Rightarrow> Orchestrator \<Rightarrow> Orchestrator" where
  "settle p out s =
     (if p < length (builds s) \<and> builds s ! p = None then
        s\<lparr>builds := (builds s)[p := Some out],
          reactions := filter (\<lambda>(q, c, a). q \<noteq> p) (reactions s),
          microtasks := microtasks s @
            map (\<lambda>(q, c, a). (c, a, out)) (filter (\<lambda>(q, c, a). q = p) (reactions s))\<rparr>
      else s)"

text \<open>
  A call is resumed. At line 132 a rejection is thrown out of \<^verbatim>\<open>getDelta\<close>, before the
  \<^verbatim>\<open>try\<close>; otherwise the call goes on to line 135. At line 140 the \<^verbatim>\<open>finally\<close> block
  clears the field, and the call returns the result or throws the rejection.
\<close>

fun resume :: "nat \<times> AwaitPoint \<times> Outcome \<Rightarrow> Orchestrator \<Rightarrow> Orchestrator" where
  "resume (c, AwaitPrevious, Inl e) s = s\<lparr>calls := (calls s)[c := Some (Inl e)]\<rparr>"
| "resume (c, AwaitPrevious, Inr r) s = start_build c s"
| "resume (c, AwaitOwn, out) s =
     s\<lparr>currentBuildPromise := None, calls := (calls s)[c := Some out]\<rparr>"

text \<open>The first microtask of the queue runs.\<close>

definition tick :: "Orchestrator \<Rightarrow> Orchestrator" where
  "tick s = (case microtasks s of [] \<Rightarrow> s | j # js \<Rightarrow> resume j (s\<lparr>microtasks := js\<rparr>))"

text \<open>The microtask queue runs until it is empty.\<close>

function drain :: "Orchestrator \<Rightarrow> Orchestrator" where
  "drain s = (if microtasks s = [] then s else drain (tick s))"
  by pat_completeness auto
termination
proof (relation "measure (\<lambda>s. length (microtasks s))")
  show "wf (measure (\<lambda>s. length (microtasks s)))" by simp
next
  fix s :: Orchestrator
  assume "microtasks s \<noteq> []"
  then obtain c a out js where js: "microtasks s = (c, a, out) # js"
    by (cases "microtasks s") auto
  have "length (microtasks (tick s)) = length js"
    by (cases a; cases out) (simp_all add: tick_def js start_build_def)
  then show "(tick s, s) \<in> measure (\<lambda>s. length (microtasks s))"
    by (simp add: js)
qed

text \<open>
  What can happen to the orchestrator: a call arrives, a computation finishes, a
  microtask runs. Every interleaving of them is a run; those of the JavaScript event
  loop are among them.
\<close>

datatype Event = Call | Settle nat Outcome | Tick

fun step :: "Event \<Rightarrow> Orchestrator \<Rightarrow> Orchestrator" where
  "step Call s = getDelta_call s"
| "step (Settle p out) s = settle p out s"
| "step Tick s = tick s"

definition run :: "Event list \<Rightarrow> Orchestrator \<Rightarrow> Orchestrator" where
  "run evs s = foldl (\<lambda>s ev. step ev s) s evs"

text \<open>The computations that are running: the build promises that are pending.\<close>

definition running :: "Orchestrator \<Rightarrow> nat list" where
  "running s = filter (\<lambda>p. builds s ! p = None) [0..<length (builds s)]"

subsection \<open>Invariants of the transition system\<close>

text \<open>The calls that have a continuation: waiting for a promise, or queued.\<close>

definition waiting :: "Orchestrator \<Rightarrow> nat list" where
  "waiting s = map (\<lambda>(p, c, a). c) (reactions s) @ map (\<lambda>(c, a, out). c) (microtasks s)"

text \<open>
  What holds in every state that the events can reach: the fields agree in length, the
  stored promise exists, each call has at most one continuation, a call waiting at
  line 132 has not started a build, and a call waiting at line 140 waits for the
  build it started.
\<close>

definition consistent :: "Orchestrator \<Rightarrow> bool" where
  "consistent s =
     (length (startedBy s) = length (builds s) \<and>
      (\<forall>p. currentBuildPromise s = Some p \<longrightarrow> p < length (builds s)) \<and>
      (\<forall>c. c \<in> set (startedBy s) \<longrightarrow> c < length (calls s)) \<and>
      distinct (waiting s) \<and>
      (\<forall>c. c \<in> set (waiting s) \<longrightarrow> c < length (calls s)) \<and>
      (\<forall>p c. (p, c, AwaitPrevious) \<in> set (reactions s) \<longrightarrow> c \<notin> set (startedBy s)) \<and>
      (\<forall>p c. (p, c, AwaitOwn) \<in> set (reactions s) \<longrightarrow>
             p < length (builds s) \<and> startedBy s ! p = c) \<and>
      (\<forall>c out. (c, AwaitPrevious, out) \<in> set (microtasks s) \<longrightarrow> c \<notin> set (startedBy s)) \<and>
      (\<forall>c out. (c, AwaitOwn, out) \<in> set (microtasks s) \<longrightarrow>
             (\<exists>p. p < length (builds s) \<and> startedBy s ! p = c \<and> builds s ! p = Some out)))"

text \<open>
  Call \<open>c\<close> arrived while build \<open>p\<close> was pending: until \<open>p\<close> settles the call waits for it
  at line 132; once \<open>p\<close> has rejected with \<open>e\<close> the call is queued with that rejection, or
  has been rejected with it; and it has started no build.
\<close>

definition blocked_on :: "nat \<Rightarrow> nat \<Rightarrow> Orchestrator \<Rightarrow> bool" where
  "blocked_on p c s =
     (p < length (builds s) \<and> c < length (calls s) \<and>
      (case builds s ! p of
         None \<Rightarrow> (p, c, AwaitPrevious) \<in> set (reactions s) \<and> calls s ! c = None \<and>
                  c \<notin> set (startedBy s)
       | Some (Inl e) \<Rightarrow>
           c \<notin> set (startedBy s) \<and>
           ((c, AwaitPrevious, Inl e) \<in> set (microtasks s) \<and> calls s ! c = None \<or>
            calls s ! c = Some (Inl e) \<and> c \<notin> set (waiting s))
       | Some (Inr r) \<Rightarrow> True))"

subsection \<open>Example collaborators\<close>

text \<open>Concrete modules, a resolver, a bundler and a transformer, for the examples below.\<close>

definition example_metadata :: "string \<Rightarrow> SourceMap \<Rightarrow> Metadata" where
  "example_metadata src m =
     \<lparr>md_code = src, md_dependencyOffsets = None, md_map = m, md_source = src\<rparr>"

definition example_script :: "string \<Rightarrow> Module" where
  "example_script p =
     \<lparr>m_path = p, getName = Inr p, isAsset = False,
      read = (\<lambda>opts. Inr (example_metadata p (RawMappings [RawMapping [1, 0, 1, 0] None])))\<rparr>"

text \<open>A module whose transform answers a standard source map, as a minifier does.\<close>

definition example_minified :: "string \<Rightarrow> Module" where
  "example_minified p =
     \<lparr>m_path = p, getName = Inr p, isAsset = False,
      read = (\<lambda>opts. Inr (example_metadata p (StandardMap ''version 3'')))\<rparr>"

text \<open>A module whose transform fails.\<close>

definition example_broken :: "string \<Rightarrow> Module" where
  "example_broken p =
     \<lparr>m_path = p, getName = Inr p, isAsset = False,
      read = (\<lambda>opts. Inl (Error ''SyntaxError''))\<rparr>"

text \<open>An id allocator: one id per path.\<close>

definition example_ids :: "string \<Rightarrow> int" where
  "example_ids p =
     (case map_of [(''/a.js'', 1), (''/b.js'', 2), (''/index.js'', 3), (''/c.js'', 4),
                   (''/require.js'', 10), (''/ios-polyfill.js'', 20), (''/polyfill.js'', 21)] p of
        Some i \<Rightarrow> i
      | None \<Rightarrow> 0)"

definition example_resolver :: Resolver where
  "example_resolver =
     \<lparr>getModuleSystemDependencies = (\<lambda>dev0. [example_script ''/require.js'']),
      createPolyfill = (\<lambda>file id0 dependencies. example_script file),
      getAbsolutePath = (\<lambda>file. ''/'' @ file),
      wrapModule = (\<lambda>args. Inr \<lparr>w_code = ''__d('' @ wm_code args @ '')'', w_map = wm_map args\<rparr>),
      resolveRequires = (\<lambda>m ids c pairs offsets. Inr c)\<rparr>"

definition example_bundler :: Bundler where
  "example_bundler =
     \<lparr>getResolver = Inr example_resolver,
      generateAssetObjAndCode =
        (\<lambda>m plugins platform0. Inr \<lparr>asset_code = ''asset'', asset_dependencyOffsets = None\<rparr>),
      getModuleForPath = (\<lambda>p. Inr (example_script p)),
      getGetModuleIdFn = example_ids\<rparr>"

text \<open>
  A transformer for the platform \<^verbatim>\<open>ios\<close>: \<^verbatim>\<open>getPolyfills({platform})\<close> answers the polyfill
  of the platform, \<^verbatim>\<open>polyfillModuleNames\<close> is the list that does not depend on it.
\<close>

definition example_transformer :: "string list \<Rightarrow> DeltaResult \<Rightarrow> DeltaTransformer" where
  "example_transformer runBefore d =
     new_DeltaTransformer example_bundler
       \<lparr>dc_getDelta = Inr d,
        getTransformerOptions = JSTransformerOptions 0,
        getDependencyPairs = [],
        getModulesByName =
          [(''A'', example_script ''/a.js''), (''B'', example_script ''/b.js''),
           (''E'', example_script ''/index.js'')],
        dc_getInverseDependencies = [(''/a.js'', [''/b.js''])]\<rparr>
       \<lparr>o_getPolyfills = (\<lambda>platform0. case platform0 of Some p \<Rightarrow> [''/'' @ p @ ''-polyfill.js'']
                                       | None \<Rightarrow> []),
        o_polyfillModuleNames = [''/polyfill.js'']\<rparr>
       \<lparr>assetPlugins = [], dev = True, entryFile = ''index.js'', minify = False,
        platform = Some ''ios'', runBeforeMainModule = runBefore, wrapModules = False\<rparr>"

text \<open>A scheduling in which the leftmost rejection comes first.\<close>

definition example_sched :: "Module list \<Rightarrow> nat list \<Rightarrow> nat" where
  "example_sched ms rejected = 0"

text \<open>Three diffs: a module modified and deleted, a reset without modules, a failing module.\<close>

definition example_diff :: DeltaResult where
  "example_diff =
     \<lparr>modified = [(''/a.js'', example_script ''/a.js'')], deleted = [''/a.js''], d_reset = False\<rparr>"

definition example_reset :: DeltaResult where
  "example_reset = \<lparr>modified = [], deleted = [], d_reset = True\<rparr>"

definition example_failing :: DeltaResult where
  "example_failing =
     \<lparr>modified = [(''/a.js'', example_script ''/a.js''), (''/b.js'', example_broken ''/b.js'')],
      deleted = [], d_reset = True\<rparr>"

section \<open>Properties\<close>

subsection \<open>Maps, joins and the translation loop\<close>

lemma Map_set_fresh: "k \<notin> fst ` set m \<Longrightarrow> Map_set m k v = m @ [(k, v)]"
  by (induction m) (auto simp: Map_set_def)

lemma fold_set_distinct:
  "distinct (map fst (m @ ps)) \<Longrightarrow> foldl (\<lambda>m (k, v). Map_set m k v) m ps = m @ ps"
proof (induction ps arbitrary: m)
  case Nil
  then show ?case by simp
next
  case (Cons p ps)
  obtain k v where p: "p = (k, v)" by (cases p)
  from Cons.prems have fresh: "k \<notin> fst ` set m" by (auto simp: p)
  from Cons.prems have "distinct (map fst ((m @ [(k, v)]) @ ps))" by (simp add: p)
  from Cons.IH [OF this] show ?case by (simp add: p Map_set_fresh [OF fresh])
qed

lemma new_Map_distinct: "distinct (map fst ps) \<Longrightarrow> new_Map ps = ps"
  using fold_set_distinct [of "[]" ps] by (simp add: new_Map_def)

lemma distinct_Map_set: "distinct (map fst m) \<Longrightarrow> distinct (map fst (Map_set m k v))"
  by (simp add: Map_set_def distinct_update)

lemma fold_set_keys_distinct:
  "distinct (map fst m) \<Longrightarrow> distinct (map fst (foldl (\<lambda>m (k, v). Map_set m k v) m ps))"
  by (induction ps arbitrary: m) (auto simp: distinct_Map_set split: prod.splits)

lemma new_Map_keys_distinct: "distinct (map fst (new_Map ps))"
  by (simp add: new_Map_def fold_set_keys_distinct)

lemma tombstones_get:
  "Map_get (foldl (\<lambda>m p. Map_set m (g p) None) m ps) k =
     (if k \<in> g ` set ps then Some None else Map_get m k)"
  by (induction ps arbitrary: m) (auto simp: Map_get_def Map_set_def update_conv')

lemma tombstones_distinct:
  "distinct (map fst m) \<Longrightarrow> distinct (map fst (foldl (\<lambda>m p. Map_set m (g p) None) m ps))"
  by (induction ps arbitrary: m) (auto simp: distinct_Map_set)

lemma Promise_all_Inr:
  "Promise_all f ps = Inr xs \<Longrightarrow> ps = map Inr xs"
  apply (auto simp: Promise_all_def Let_def filter_empty_conv split: if_splits)
  apply (rule nth_equalityI)
   apply simp
  by simp


lemma getInverseDependencies_fold:
  "foldl (\<lambda>output (key, dependencies). output(K key \<mapsto> V dependencies)) out ivs
     = out ++ map_of (rev (map (\<lambda>(key, dependencies). (K key, V dependencies)) ivs))"
  by (induction ivs arbitrary: out) (auto simp: map_add_upd_left fun_eq_iff map_add_def split: option.splits)

subsection \<open>The delta computation, step by step\<close>

lemma transformModule_id:
  "transformModule sched this m resolver opts deps = Inr (i, entry) \<Longrightarrow>
   i = getModuleId this (m_path m)"
  by (auto simp: transformModule_def split: sum.splits)

lemma transformModules_Inr:
  assumes "transformModules sched this ms resolver opts deps = Inr entries"
  obtains pairs where
    "map (\<lambda>m. transformModule sched this m resolver opts deps) ms = map Inr pairs"
    "entries = new_Map pairs"
proof -
  from assms obtain pairs where
    p: "Promise_all (sched ms) (map (\<lambda>m. transformModule sched this m resolver opts deps) ms)
          = Inr pairs"
    and e: "entries = new_Map pairs"
    by (auto simp: transformModules_def split: sum.splits)
  from Promise_all_Inr [OF p] e that show ?thesis by blast
qed

lemma transformModules_keys:
  assumes "map (\<lambda>m. transformModule sched this m resolver opts deps) ms = map Inr pairs"
  shows "map fst pairs = map (\<lambda>m. getModuleId this (m_path m)) ms"
  using assms
proof (induction ms arbitrary: pairs)
  case Nil
  then show ?case by simp
next
  case (Cons m ms)
  then obtain q qs where pairs: "pairs = q # qs" by (cases pairs) auto
  with Cons.prems have h: "transformModule sched this m resolver opts deps = Inr q"
    and t: "map (\<lambda>m. transformModule sched this m resolver opts deps) ms = map Inr qs"
    by simp_all
  from h have "fst q = getModuleId this (m_path m)"
    by (cases q) (simp add: transformModule_id)
  with Cons.IH [OF t] show ?case by (simp add: pairs)
qed


lemma getDelta_inner_Inr:
  assumes "getDelta_inner sched this = Inr r"
  obtains d resolver transformed where
    "dc_getDelta (deltaCalculator this) = Inr d"
    "getResolver (bundler this) = Inr resolver"
    "transformModules sched this (map snd (modified d)) resolver
       (getTransformerOptions (deltaCalculator this)) (getDependencyPairs (deltaCalculator this))
     = Inr transformed"
    "delta r = foldl (\<lambda>m id0. Map_set m (getModuleId this id0) None) transformed (deleted d)"
    "reset r = d_reset d"
    "if d_reset d
     then getPrepend sched this (getTransformerOptions (deltaCalculator this))
            (getDependencyPairs (deltaCalculator this)) = Inr (pre r)
          \<and> getAppend this (getDependencyPairs (deltaCalculator this))
              (getModulesByName (deltaCalculator this)) = Inr (post r)
     else pre r = [] \<and> post r = []"
    "inverseDependencies r =
       getInverseDependencies this (dc_getInverseDependencies (deltaCalculator this))"
proof (cases "dc_getDelta (deltaCalculator this)")
  case (Inl e)
  then show ?thesis using assms by (simp add: getDelta_inner_def Let_def)
next
  case d: (Inr d)
  show ?thesis
  proof (cases "getResolver (bundler this)")
    case (Inl e)
    then show ?thesis using assms d by (simp add: getDelta_inner_def Let_def)
  next
    case res: (Inr resolver)
    show ?thesis
    proof (cases "transformModules sched this (map snd (modified d)) resolver
       (getTransformerOptions (deltaCalculator this)) (getDependencyPairs (deltaCalculator this))")
      case (Inl e)
      then show ?thesis using assms d res by (simp add: getDelta_inner_def Let_def)
    next
      case tr: (Inr transformed)
      show ?thesis
      proof (cases "d_reset d")
        case False
        then show ?thesis
          using assms d res tr that [of d resolver transformed]
          by (auto simp: getDelta_inner_def Let_def)
      next
        case True
        then show ?thesis
          using assms d res tr that [of d resolver transformed]
          by (auto simp: getDelta_inner_def Let_def split: sum.splits)
      qed
    qed
  qed
qed

lemma delta_keys_distinct:
  assumes "getDelta_inner sched this = Inr r"
  shows "distinct (map fst (delta r))"
  using assms
proof (rule getDelta_inner_Inr)
  fix d resolver transformed
  assume tr: "transformModules sched this (map snd (modified d)) resolver
       (getTransformerOptions (deltaCalculator this)) (getDependencyPairs (deltaCalculator this))
     = Inr transformed"
    and dl: "delta r = foldl (\<lambda>m id0. Map_set m (getModuleId this id0) None) transformed (deleted d)"
  from tr obtain pairs where "transformed = new_Map pairs" by (rule transformModules_Inr)
  then have "distinct (map fst transformed)" by (simp add: new_Map_keys_distinct)
  then show ?thesis unfolding dl by (rule tombstones_distinct)
qed

lemma deleted_is_tombstone:
  assumes r: "getDelta_inner sched this = Inr r"
    and d: "dc_getDelta (deltaCalculator this) = Inr d"
    and p: "p \<in> set (deleted d)"
  shows "Map_get (delta r) (getModuleId this p) = Some None"
    and "(getModuleId this p, Some e) \<notin> set (delta r)"
proof -
  from r show g: "Map_get (delta r) (getModuleId this p) = Some None"
  proof (rule getDelta_inner_Inr)
    fix d' resolver transformed
    assume d': "dc_getDelta (deltaCalculator this) = Inr d'"
      and dl: "delta r = foldl (\<lambda>m id0. Map_set m (getModuleId this id0) None) transformed (deleted d')"
    from d d' have "d' = d" by simp
    with dl p show ?thesis by (simp add: tombstones_get)
  qed
  show "(getModuleId this p, Some e) \<notin> set (delta r)"
  proof
    assume "(getModuleId this p, Some e) \<in> set (delta r)"
    with delta_keys_distinct [OF r] have "map_of (delta r) (getModuleId this p) = Some (Some e)"
      by (simp add: map_of_is_SomeI)
    with g show False by (simp add: Map_get_def)
  qed
qed

lemma read_failure_fails_module:
  assumes "\<not> isAsset m" and "read m opts = Inl e"
  shows "\<exists>e'. transformModule sched this m resolver opts deps = Inl e'"
  using assms
  by (auto simp: transformModule_def getMetadata_def Promise_all2_def split: sum.splits)

lemma wrap_failure_fails_module:
  assumes "getName m = Inr name0" and "getMetadata this m opts = Inr metadata"
    and "wrap_step this m resolver name0 metadata (or_empty (Map_get deps (m_path m))) = Inl e"
  shows "transformModule sched this m resolver opts deps = Inl e"
  using assms by (simp add: transformModule_def Promise_all2_def)

subsection \<open>Every reachable state is consistent\<close>

lemma consistentI:
  assumes "length (startedBy s) = length (builds s)"
    and "\<And>p. currentBuildPromise s = Some p \<Longrightarrow> p < length (builds s)"
    and "\<And>c. c \<in> set (startedBy s) \<Longrightarrow> c < length (calls s)"
    and "distinct (waiting s)"
    and "\<And>c. c \<in> set (waiting s) \<Longrightarrow> c < length (calls s)"
    and "\<And>p c. (p, c, AwaitPrevious) \<in> set (reactions s) \<Longrightarrow> c \<notin> set (startedBy s)"
    and "\<And>p c. (p, c, AwaitOwn) \<in> set (reactions s) \<Longrightarrow>
             p < length (builds s) \<and> startedBy s ! p = c"
    and "\<And>c out. (c, AwaitPrevious, out) \<in> set (microtasks s) \<Longrightarrow> c \<notin> set (startedBy s)"
    and "\<And>c out. (c, AwaitOwn, out) \<in> set (microtasks s) \<Longrightarrow>
             \<exists>p. p < length (builds s) \<and> startedBy s ! p = c \<and> builds s ! p = Some out"
  shows "consistent s"
  unfolding consistent_def using assms by blast

lemma cD_len: "consistent s \<Longrightarrow> length (startedBy s) = length (builds s)"
  unfolding consistent_def by blast

lemma cD_tok: "consistent s \<Longrightarrow> currentBuildPromise s = Some p \<Longrightarrow> p < length (builds s)"
  unfolding consistent_def by blast

lemma cD_sb: "consistent s \<Longrightarrow> c \<in> set (startedBy s) \<Longrightarrow> c < length (calls s)"
  unfolding consistent_def by blast

lemma cD_dist: "consistent s \<Longrightarrow> distinct (waiting s)"
  unfolding consistent_def by blast

lemma cD_w: "consistent s \<Longrightarrow> c \<in> set (waiting s) \<Longrightarrow> c < length (calls s)"
  unfolding consistent_def by blast

lemma cD_rp: "consistent s \<Longrightarrow> (p, c, AwaitPrevious) \<in> set (reactions s) \<Longrightarrow> c \<notin> set (startedBy s)"
  unfolding consistent_def by blast

lemma cD_ro: "consistent s \<Longrightarrow> (p, c, AwaitOwn) \<in> set (reactions s) \<Longrightarrow>
    p < length (builds s) \<and> startedBy s ! p = c"
  unfolding consistent_def by blast

lemma cD_mp: "consistent s \<Longrightarrow> (c, AwaitPrevious, out) \<in> set (microtasks s) \<Longrightarrow> c \<notin> set (startedBy s)"
  unfolding consistent_def by blast

lemma cD_mo: "consistent s \<Longrightarrow> (c, AwaitOwn, out) \<in> set (microtasks s) \<Longrightarrow>
    \<exists>p. p < length (builds s) \<and> startedBy s ! p = c \<and> builds s ! p = Some out"
  unfolding consistent_def by blast

lemma consistent_constructed: "consistent constructed"
  by (rule consistentI) (simp_all add: constructed_def waiting_def)

lemma start_build_fields:
  "currentBuildPromise (start_build c s) = Some (length (builds s))"
  "builds (start_build c s) = builds s @ [None]"
  "startedBy (start_build c s) = startedBy s @ [c]"
  "reactions (start_build c s) = reactions s @ [(length (builds s), c, AwaitOwn)]"
  "microtasks (start_build c s) = microtasks s"
  "calls (start_build c s) = calls s"
  by (simp_all add: start_build_def)

lemma in_waiting_r: "(p, c, a) \<in> set (reactions s) \<Longrightarrow> c \<in> set (waiting s)"
  by (force simp: waiting_def)

lemma in_waiting_m: "(c, a, out) \<in> set (microtasks s) \<Longrightarrow> c \<in> set (waiting s)"
  by (force simp: waiting_def)

lemma consistent_start_build:
  assumes con: "consistent s" and c: "c < length (calls s)" and fresh: "c \<notin> set (waiting s)"
  shows "consistent (start_build c s)"
proof (rule consistentI)
  let ?t = "start_build c s"
  note len = cD_len [OF con]
  show "length (startedBy ?t) = length (builds ?t)"
    using len by (simp add: start_build_fields)
  show "\<And>p. currentBuildPromise ?t = Some p \<Longrightarrow> p < length (builds ?t)"
    by (simp add: start_build_fields)
  show "\<And>c'. c' \<in> set (startedBy ?t) \<Longrightarrow> c' < length (calls ?t)"
    using cD_sb [OF con] c by (auto simp: start_build_fields)
  show "distinct (waiting ?t)"
    using cD_dist [OF con] fresh by (auto simp: waiting_def start_build_fields)
  have ws: "set (waiting ?t) = insert c (set (waiting s))"
    by (auto simp: waiting_def start_build_fields)
  show "\<And>c'. c' \<in> set (waiting ?t) \<Longrightarrow> c' < length (calls ?t)"
    using cD_w [OF con] c by (auto simp: ws start_build_fields)
  show "\<And>p c'. (p, c', AwaitPrevious) \<in> set (reactions ?t) \<Longrightarrow> c' \<notin> set (startedBy ?t)"
    using cD_rp [OF con] fresh by (auto simp: start_build_fields dest: in_waiting_r)
  show "\<And>p c'. (p, c', AwaitOwn) \<in> set (reactions ?t) \<Longrightarrow>
             p < length (builds ?t) \<and> startedBy ?t ! p = c'"
  proof -
    fix p c' assume "(p, c', AwaitOwn) \<in> set (reactions ?t)"
    then consider "(p, c', AwaitOwn) \<in> set (reactions s)" | "p = length (builds s)" "c' = c"
      by (auto simp: start_build_fields)
    then show "p < length (builds ?t) \<and> startedBy ?t ! p = c'"
    proof cases
      case 1
      from cD_ro [OF con 1] show ?thesis using len by (simp add: start_build_fields nth_append)
    next
      case 2
      then show ?thesis using len by (simp add: start_build_fields nth_append)
    qed
  qed
  show "\<And>c' out. (c', AwaitPrevious, out) \<in> set (microtasks ?t) \<Longrightarrow> c' \<notin> set (startedBy ?t)"
    using cD_mp [OF con] fresh by (auto simp: start_build_fields dest: in_waiting_m)
  show "\<And>c' out. (c', AwaitOwn, out) \<in> set (microtasks ?t) \<Longrightarrow>
             \<exists>p. p < length (builds ?t) \<and> startedBy ?t ! p = c' \<and> builds ?t ! p = Some out"
  proof -
    fix c' out assume "(c', AwaitOwn, out) \<in> set (microtasks ?t)"
    then have "(c', AwaitOwn, out) \<in> set (microtasks s)" by (simp add: start_build_fields)
    from cD_mo [OF con this]
    obtain p where "p < length (builds s)" "startedBy s ! p = c'" "builds s ! p = Some out"
      by blast
    then have "p < length (builds ?t) \<and> startedBy ?t ! p = c' \<and> builds ?t ! p = Some out"
      using len by (simp add: start_build_fields nth_append)
    then show "\<exists>p. p < length (builds ?t) \<and> startedBy ?t ! p = c' \<and> builds ?t ! p = Some out" ..
  qed
qed

lemma consistent_more_calls:
  assumes con: "consistent s"
  shows "consistent (s\<lparr>calls := calls s @ [v]\<rparr>)"
proof (rule consistentI)
  let ?t = "s\<lparr>calls := calls s @ [v]\<rparr>"
  have w: "waiting ?t = waiting s" by (simp add: waiting_def)
  show "length (startedBy ?t) = length (builds ?t)" using cD_len [OF con] by simp
  show "\<And>p. currentBuildPromise ?t = Some p \<Longrightarrow> p < length (builds ?t)"
    using cD_tok [OF con] by simp
  show "\<And>c. c \<in> set (startedBy ?t) \<Longrightarrow> c < length (calls ?t)"
    using cD_sb [OF con] by (simp add: less_SucI)
  show "distinct (waiting ?t)" using cD_dist [OF con] by (simp add: w)
  show "\<And>c. c \<in> set (waiting ?t) \<Longrightarrow> c < length (calls ?t)"
    using cD_w [OF con] by (simp add: w less_SucI)
  show "\<And>p c. (p, c, AwaitPrevious) \<in> set (reactions ?t) \<Longrightarrow> c \<notin> set (startedBy ?t)"
    using cD_rp [OF con] by simp
  show "\<And>p c. (p, c, AwaitOwn) \<in> set (reactions ?t) \<Longrightarrow>
             p < length (builds ?t) \<and> startedBy ?t ! p = c"
    using cD_ro [OF con] by simp
  show "\<And>c out. (c, AwaitPrevious, out) \<in> set (microtasks ?t) \<Longrightarrow> c \<notin> set (startedBy ?t)"
    using cD_mp [OF con] by simp
  show "\<And>c out. (c, AwaitOwn, out) \<in> set (microtasks ?t) \<Longrightarrow>
             \<exists>p. p < length (builds ?t) \<and> startedBy ?t ! p = c \<and> builds ?t ! p = Some out"
    using cD_mo [OF con] by simp
qed

lemma waiting_below: "consistent s \<Longrightarrow> length (calls s) \<notin> set (waiting s)"
  using cD_w [of s "length (calls s)"] by blast

lemma startedBy_below: "consistent s \<Longrightarrow> length (calls s) \<notin> set (startedBy s)"
  using cD_sb [of s "length (calls s)"] by blast

lemma consistent_await_previous:
  assumes con: "consistent s" and c: "c < length (calls s)" and fresh: "c \<notin> set (waiting s)"
    and ns: "c \<notin> set (startedBy s)"
  shows "consistent (await_promise p c AwaitPrevious s)"
proof -
  have r: "consistent (s\<lparr>reactions := reactions s @ [(p, c, AwaitPrevious)]\<rparr>)"
  proof (rule consistentI)
    let ?t = "s\<lparr>reactions := reactions s @ [(p, c, AwaitPrevious)]\<rparr>"
    have ws: "set (waiting ?t) = insert c (set (waiting s))"
      by (auto simp: waiting_def)
    show "length (startedBy ?t) = length (builds ?t)" using cD_len [OF con] by simp
    show "\<And>p. currentBuildPromise ?t = Some p \<Longrightarrow> p < length (builds ?t)"
      using cD_tok [OF con] by simp
    show "\<And>c. c \<in> set (startedBy ?t) \<Longrightarrow> c < length (calls ?t)"
      using cD_sb [OF con] by simp
    show "distinct (waiting ?t)"
      using cD_dist [OF con] fresh by (auto simp: waiting_def)
    show "\<And>c'. c' \<in> set (waiting ?t) \<Longrightarrow> c' < length (calls ?t)"
      using cD_w [OF con] c by (auto simp: ws)
    show "\<And>q c'. (q, c', AwaitPrevious) \<in> set (reactions ?t) \<Longrightarrow> c' \<notin> set (startedBy ?t)"
      using cD_rp [OF con] ns by auto
    show "\<And>q c'. (q, c', AwaitOwn) \<in> set (reactions ?t) \<Longrightarrow>
               q < length (builds ?t) \<and> startedBy ?t ! q = c'"
      using cD_ro [OF con] by simp
    show "\<And>c out. (c, AwaitPrevious, out) \<in> set (microtasks ?t) \<Longrightarrow> c \<notin> set (startedBy ?t)"
      using cD_mp [OF con] by simp
    show "\<And>c out. (c, AwaitOwn, out) \<in> set (microtasks ?t) \<Longrightarrow>
               \<exists>p. p < length (builds ?t) \<and> startedBy ?t ! p = c \<and> builds ?t ! p = Some out"
      using cD_mo [OF con] by simp
  qed
  have m: "consistent (s\<lparr>microtasks := microtasks s @ [(c, AwaitPrevious, out)]\<rparr>)" for out
  proof (rule consistentI)
    let ?t = "s\<lparr>microtasks := microtasks s @ [(c, AwaitPrevious, out)]\<rparr>"
    have ws: "set (waiting ?t) = insert c (set (waiting s))"
      by (auto simp: waiting_def)
    show "length (startedBy ?t) = length (builds ?t)" using cD_len [OF con] by simp
    show "\<And>p. currentBuildPromise ?t = Some p \<Longrightarrow> p < length (builds ?t)"
      using cD_tok [OF con] by simp
    show "\<And>c. c \<in> set (startedBy ?t) \<Longrightarrow> c < length (calls ?t)"
      using cD_sb [OF con] by simp
    show "distinct (waiting ?t)"
      using cD_dist [OF con] fresh by (auto simp: waiting_def)
    show "\<And>c'. c' \<in> set (waiting ?t) \<Longrightarrow> c' < length (calls ?t)"
      using cD_w [OF con] c by (auto simp: ws)
    show "\<And>q c'. (q, c', AwaitPrevious) \<in> set (reactions ?t) \<Longrightarrow> c' \<notin> set (startedBy ?t)"
      using cD_rp [OF con] by simp
    show "\<And>q c'. (q, c', AwaitOwn) \<in> set (reactions ?t) \<Longrightarrow>
               q < length (builds ?t) \<and> startedBy ?t ! q = c'"
      using cD_ro [OF con] by simp
    show "\<And>c' out'. (c', AwaitPrevious, out') \<in> set (microtasks ?t) \<Longrightarrow> c' \<notin> set (startedBy ?t)"
      using cD_mp [OF con] ns by auto
    show "\<And>c' out'. (c', AwaitOwn, out') \<in> set (microtasks ?t) \<Longrightarrow>
               \<exists>p. p < length (builds ?t) \<and> startedBy ?t ! p = c' \<and> builds ?t ! p = Some out'"
      using cD_mo [OF con] by simp
  qed
  show ?thesis
    using con r m by (simp add: await_promise_def split: option.splits)
qed

lemma consistent_getDelta_call:
  assumes con: "consistent s"
  shows "consistent (getDelta_call s)"
proof -
  let ?s1 = "s\<lparr>calls := calls s @ [None]\<rparr>"
  have con1: "consistent ?s1" by (rule consistent_more_calls [OF con])
  have c: "length (calls s) < length (calls ?s1)" by simp
  have w: "length (calls s) \<notin> set (waiting ?s1)"
    using waiting_below [OF con] by (simp add: waiting_def)
  have sb: "length (calls s) \<notin> set (startedBy ?s1)"
    using startedBy_below [OF con] by simp
  show ?thesis
  proof (cases "currentBuildPromise s")
    case None
    then show ?thesis
      using consistent_start_build [OF con1 c w] by (simp add: getDelta_call_def Let_def)
  next
    case (Some p)
    then show ?thesis
      using consistent_await_previous [OF con1 c w sb] by (simp add: getDelta_call_def Let_def)
  qed
qed

lemma distinct_split:
  "distinct (map f xs @ ys) \<Longrightarrow>
   distinct (map f (filter (\<lambda>x. \<not> P x) xs) @ ys @ map f (filter P xs))"
  by (induction xs) auto

lemma settle_fields:
  assumes "p < length (builds s)" "builds s ! p = None"
  shows "currentBuildPromise (settle p out s) = currentBuildPromise s"
    "builds (settle p out s) = (builds s)[p := Some out]"
    "startedBy (settle p out s) = startedBy s"
    "reactions (settle p out s) = filter (\<lambda>(q, c, a). q \<noteq> p) (reactions s)"
    "microtasks (settle p out s) = microtasks s @
       map (\<lambda>(q, c, a). (c, a, out)) (filter (\<lambda>(q, c, a). q = p) (reactions s))"
    "calls (settle p out s) = calls s"
  using assms by (simp_all add: settle_def)

lemma settle_idle: "\<not> (p < length (builds s) \<and> builds s ! p = None) \<Longrightarrow> settle p out s = s"
  by (auto simp: settle_def)

lemma waiting_settle:
  assumes "p < length (builds s)" "builds s ! p = None"
  shows "waiting (settle p out s) =
     map (\<lambda>(q, c, a). c) (filter (\<lambda>x. \<not> (case x of (q, c, a) \<Rightarrow> q = p)) (reactions s)) @
     map (\<lambda>(c, a, out). c) (microtasks s) @
     map (\<lambda>(q, c, a). c) (filter (\<lambda>(q, c, a). q = p) (reactions s))"
proof -
  have 1: "(\<lambda>(q, c, a). q \<noteq> p) = (\<lambda>x. \<not> (case x of (q, c, a) \<Rightarrow> q = p))"
    by (auto simp: fun_eq_iff)
  have 2: "map (\<lambda>(c, a, out). c) (map (\<lambda>(q, c, a). (c, a, out)) xs) = map (\<lambda>(q, c, a). c) xs"
    for xs :: "(nat \<times> nat \<times> AwaitPoint) list"
    by (induction xs) auto
  show ?thesis
    by (simp add: waiting_def settle_fields [OF assms] 1 2)
qed

lemma consistent_settle:
  assumes con: "consistent s"
  shows "consistent (settle p out s)"
proof (cases "p < length (builds s) \<and> builds s ! p = None")
  case False
  then show ?thesis using con by (simp add: settle_idle)
next
  case True
  then have p: "p < length (builds s)" "builds s ! p = None" by simp_all
  note f = settle_fields [OF p]
  let ?t = "settle p out s"
  have ws: "set (waiting ?t) \<subseteq> set (waiting s)"
    unfolding waiting_settle [OF p] unfolding waiting_def by force
  show ?thesis
  proof (rule consistentI)
    show "length (startedBy ?t) = length (builds ?t)" using cD_len [OF con] by (simp add: f)
    show "\<And>q. currentBuildPromise ?t = Some q \<Longrightarrow> q < length (builds ?t)"
      using cD_tok [OF con] by (simp add: f)
    show "\<And>c. c \<in> set (startedBy ?t) \<Longrightarrow> c < length (calls ?t)"
      using cD_sb [OF con] by (simp add: f)
    show "distinct (waiting ?t)"
      unfolding waiting_settle [OF p]
      using cD_dist [OF con] unfolding waiting_def by (rule distinct_split)
    show "\<And>c. c \<in> set (waiting ?t) \<Longrightarrow> c < length (calls ?t)"
      using cD_w [OF con] ws by (auto simp: f)
    show "\<And>q c. (q, c, AwaitPrevious) \<in> set (reactions ?t) \<Longrightarrow> c \<notin> set (startedBy ?t)"
      using cD_rp [OF con] by (auto simp: f)
    show "\<And>q c. (q, c, AwaitOwn) \<in> set (reactions ?t) \<Longrightarrow>
               q < length (builds ?t) \<and> startedBy ?t ! q = c"
      using cD_ro [OF con] by (auto simp: f)
    show "\<And>c o'. (c, AwaitPrevious, o') \<in> set (microtasks ?t) \<Longrightarrow> c \<notin> set (startedBy ?t)"
      using cD_mp [OF con] cD_rp [OF con] by (auto simp: f)
    show "\<And>c o'. (c, AwaitOwn, o') \<in> set (microtasks ?t) \<Longrightarrow>
               \<exists>q. q < length (builds ?t) \<and> startedBy ?t ! q = c \<and> builds ?t ! q = Some o'"
    proof -
      fix c o' assume "(c, AwaitOwn, o') \<in> set (microtasks ?t)"
      then consider "(c, AwaitOwn, o') \<in> set (microtasks s)"
        | "(p, c, AwaitOwn) \<in> set (reactions s)" "o' = out"
        by (auto simp: f)
      then show "\<exists>q. q < length (builds ?t) \<and> startedBy ?t ! q = c \<and> builds ?t ! q = Some o'"
      proof cases
        case 1
        from cD_mo [OF con 1]
        obtain q where q: "q < length (builds s)" "startedBy s ! q = c" "builds s ! q = Some o'"
          by blast
        then have "q \<noteq> p" using p by auto
        then have "q < length (builds ?t) \<and> startedBy ?t ! q = c \<and> builds ?t ! q = Some o'"
          using q by (simp add: f)
        then show ?thesis ..
      next
        case 2
        from cD_ro [OF con 2(1)]
        have "p < length (builds ?t) \<and> startedBy ?t ! p = c \<and> builds ?t ! p = Some o'"
          using 2(2) by (simp add: f)
        then show ?thesis ..
      qed
    qed
  qed
qed

lemma consistent_pop:
  assumes con: "consistent s" and js: "microtasks s = (c, a, out) # js"
  shows "consistent (s\<lparr>microtasks := js\<rparr>)" and "c \<notin> set (waiting (s\<lparr>microtasks := js\<rparr>))"
    and "c < length (calls s)"
proof -
  let ?t = "s\<lparr>microtasks := js\<rparr>"
  have ws: "waiting s = map (\<lambda>(p, c, a). c) (reactions s) @ c # map (\<lambda>(c, a, out). c) js"
    by (simp add: waiting_def js)
  have wt: "waiting ?t = map (\<lambda>(p, c, a). c) (reactions s) @ map (\<lambda>(c, a, out). c) js"
    by (simp add: waiting_def)
  have sub: "set (microtasks ?t) \<subseteq> set (microtasks s)" by (auto simp: js)
  show "c \<notin> set (waiting ?t)"
    using cD_dist [OF con] unfolding ws wt by auto
  show "c < length (calls s)"
    using cD_w [OF con, of c] unfolding ws by simp
  show "consistent ?t"
  proof (rule consistentI)
    show "length (startedBy ?t) = length (builds ?t)" using cD_len [OF con] by simp
    show "\<And>q. currentBuildPromise ?t = Some q \<Longrightarrow> q < length (builds ?t)"
      using cD_tok [OF con] by simp
    show "\<And>c. c \<in> set (startedBy ?t) \<Longrightarrow> c < length (calls ?t)"
      using cD_sb [OF con] by simp
    show "distinct (waiting ?t)"
      using cD_dist [OF con] unfolding ws wt by auto
    show "\<And>c'. c' \<in> set (waiting ?t) \<Longrightarrow> c' < length (calls ?t)"
      using cD_w [OF con] unfolding ws wt by auto
    show "\<And>q c. (q, c, AwaitPrevious) \<in> set (reactions ?t) \<Longrightarrow> c \<notin> set (startedBy ?t)"
      using cD_rp [OF con] by simp
    show "\<And>q c. (q, c, AwaitOwn) \<in> set (reactions ?t) \<Longrightarrow>
               q < length (builds ?t) \<and> startedBy ?t ! q = c"
      using cD_ro [OF con] by simp
    show "\<And>c o'. (c, AwaitPrevious, o') \<in> set (microtasks ?t) \<Longrightarrow> c \<notin> set (startedBy ?t)"
      using cD_mp [OF con] sub by auto
    show "\<And>c o'. (c, AwaitOwn, o') \<in> set (microtasks ?t) \<Longrightarrow>
               \<exists>q. q < length (builds ?t) \<and> startedBy ?t ! q = c \<and> builds ?t ! q = Some o'"
      using cD_mo [OF con] sub by auto
  qed
qed

lemma consistent_calls_update:
  assumes con: "consistent s"
    and that: "\<And>p. tok = Some p \<Longrightarrow> p < length (builds s)"
  shows "consistent (s\<lparr>currentBuildPromise := tok, calls := (calls s)[c := v]\<rparr>)"
proof (rule consistentI)
  let ?t = "s\<lparr>currentBuildPromise := tok, calls := (calls s)[c := v]\<rparr>"
  have w: "waiting ?t = waiting s" by (simp add: waiting_def)
  show "length (startedBy ?t) = length (builds ?t)" using cD_len [OF con] by simp
  show "\<And>p. currentBuildPromise ?t = Some p \<Longrightarrow> p < length (builds ?t)"
    using that by simp
  show "\<And>c. c \<in> set (startedBy ?t) \<Longrightarrow> c < length (calls ?t)"
    using cD_sb [OF con] by simp
  show "distinct (waiting ?t)" using cD_dist [OF con] by (simp add: w)
  show "\<And>c. c \<in> set (waiting ?t) \<Longrightarrow> c < length (calls ?t)"
    using cD_w [OF con] by (simp add: w)
  show "\<And>p c. (p, c, AwaitPrevious) \<in> set (reactions ?t) \<Longrightarrow> c \<notin> set (startedBy ?t)"
    using cD_rp [OF con] by simp
  show "\<And>p c. (p, c, AwaitOwn) \<in> set (reactions ?t) \<Longrightarrow>
             p < length (builds ?t) \<and> startedBy ?t ! p = c"
    using cD_ro [OF con] by simp
  show "\<And>c out. (c, AwaitPrevious, out) \<in> set (microtasks ?t) \<Longrightarrow> c \<notin> set (startedBy ?t)"
    using cD_mp [OF con] by simp
  show "\<And>c out. (c, AwaitOwn, out) \<in> set (microtasks ?t) \<Longrightarrow>
             \<exists>p. p < length (builds ?t) \<and> startedBy ?t ! p = c \<and> builds ?t ! p = Some out"
    using cD_mo [OF con] by simp
qed

lemma consistent_tick:
  assumes con: "consistent s"
  shows "consistent (tick s)"
proof (cases "microtasks s")
  case Nil
  then show ?thesis using con by (simp add: tick_def)
next
  case (Cons j js)
  obtain c a out where j: "j = (c, a, out)" by (cases j)
  have ms: "microtasks s = (c, a, out) # js" using Cons j by simp
  let ?s2 = "s\<lparr>microtasks := js\<rparr>"
  note pop = consistent_pop [OF con ms]
  have t: "tick s = resume (c, a, out) ?s2" by (simp add: tick_def ms)
  show ?thesis
  proof (cases a)
    case AwaitOwn
    have "consistent (?s2\<lparr>currentBuildPromise := None, calls := (calls ?s2)[c := Some out]\<rparr>)"
      by (rule consistent_calls_update [OF pop(1)]) simp
    then show ?thesis by (simp add: t AwaitOwn)
  next
    case AwaitPrevious
    show ?thesis
    proof (cases out)
      case (Inl e)
      have "consistent (?s2\<lparr>currentBuildPromise := currentBuildPromise ?s2,
                               calls := (calls ?s2)[c := Some (Inl e)]\<rparr>)"
        by (rule consistent_calls_update [OF pop(1)]) (rule cD_tok [OF pop(1)])
      then show ?thesis by (simp add: t AwaitPrevious Inl)
    next
      case (Inr r)
      have "consistent (start_build c ?s2)"
        using consistent_start_build [OF pop(1) _ pop(2)] pop(3) by simp
      then show ?thesis by (simp add: t AwaitPrevious Inr)
    qed
  qed
qed

lemma consistent_step: "consistent s \<Longrightarrow> consistent (step ev s)"
  by (cases ev) (simp_all add: consistent_getDelta_call consistent_settle consistent_tick)

lemma consistent_run: "consistent s \<Longrightarrow> consistent (run evs s)"
  by (induction evs arbitrary: s) (simp_all add: run_def consistent_step)

lemma reachable_consistent: "consistent (run evs constructed)"
  by (rule consistent_run [OF consistent_constructed])

subsection \<open>A call that found a pending build stays blocked on it\<close>

lemma blocked_frame:
  assumes b: "blocked_on p c s"
    and F1: "builds t ! p = builds s ! p" "length (builds s) \<le> length (builds t)"
    and F2: "calls t ! c = calls s ! c" "length (calls s) \<le> length (calls t)"
    and F3: "(p, c, AwaitPrevious) \<in> set (reactions s) \<Longrightarrow> (p, c, AwaitPrevious) \<in> set (reactions t)"
    and F4: "\<And>out. (c, AwaitPrevious, out) \<in> set (microtasks s) \<Longrightarrow>
                (c, AwaitPrevious, out) \<in> set (microtasks t)"
    and F5: "c \<notin> set (startedBy s) \<Longrightarrow> c \<notin> set (startedBy t)"
    and F6: "c \<notin> set (waiting s) \<Longrightarrow> c \<notin> set (waiting t)"
  shows "blocked_on p c t"
proof -
  have p: "p < length (builds t)" and c: "c < length (calls t)"
    using b F1(2) F2(2) by (simp_all add: blocked_on_def)
  show ?thesis
  proof (cases "builds s ! p")
    case None
    then show ?thesis
      using b p c F1(1) F2(1) F3 F5 by (simp add: blocked_on_def)
  next
    case (Some out)
    show ?thesis
    proof (cases out)
      case (Inr r)
      then show ?thesis using Some p c F1(1) by (simp add: blocked_on_def)
    next
      case (Inl e)
      then have "c \<notin> set (startedBy s)"
        and "(c, AwaitPrevious, Inl e) \<in> set (microtasks s) \<and> calls s ! c = None \<or>
            calls s ! c = Some (Inl e) \<and> c \<notin> set (waiting s)"
        using b Some by (simp_all add: blocked_on_def)
      then show ?thesis
        using Some Inl p c F1(1) F2(1) F4 F5 F6 by (auto simp: blocked_on_def)
    qed
  qed
qed

lemma set_waiting:
  "set (waiting s) = (\<lambda>x. fst (snd x)) ` set (reactions s) \<union> fst ` set (microtasks s)"
  by (auto simp: waiting_def case_prod_unfold)

lemma await_promise_fields:
  "calls (await_promise q c a s) = calls s"
  "builds (await_promise q c a s) = builds s"
  "startedBy (await_promise q c a s) = startedBy s"
  "set (reactions s) \<subseteq> set (reactions (await_promise q c a s))"
  "set (microtasks s) \<subseteq> set (microtasks (await_promise q c a s))"
  by (auto simp: await_promise_def split: option.splits)

lemma await_promise_waiting:
  "set (waiting (await_promise q c a s)) \<subseteq> insert c (set (waiting s))"
  by (auto simp: set_waiting await_promise_def split: option.splits)

lemma resume_fields:
  "length (builds s) \<le> length (builds (resume (c', a, out) s))"
  "p < length (builds s) \<Longrightarrow> builds (resume (c', a, out) s) ! p = builds s ! p"
  "length (calls (resume (c', a, out) s)) = length (calls s)"
  "c \<noteq> c' \<Longrightarrow> calls (resume (c', a, out) s) ! c = calls s ! c"
  "set (reactions s) \<subseteq> set (reactions (resume (c', a, out) s))"
  "microtasks (resume (c', a, out) s) = microtasks s"
  "set (startedBy (resume (c', a, out) s)) \<subseteq> insert c' (set (startedBy s))"
  by (cases a; cases out; auto simp: start_build_fields nth_append)+

lemma resume_waiting:
  "set (waiting (resume (c', a, out) s)) \<subseteq> insert c' (set (waiting s))"
  by (cases a; cases out; auto simp: set_waiting start_build_fields)

lemma settle_member:
  "(p, c, a) \<in> set (reactions s) \<Longrightarrow>
   (c, a, out) \<in> set (map (\<lambda>(q, c, a). (c, a, out)) (filter (\<lambda>(q, c, a). q = p) (reactions s)))"
  by (force simp: image_iff)

lemma getDelta_call_start:
  "currentBuildPromise s = None \<Longrightarrow>
   getDelta_call s = start_build (length (calls s)) (s\<lparr>calls := calls s @ [None]\<rparr>)"
  by (simp add: getDelta_call_def Let_def)

lemma getDelta_call_wait:
  "currentBuildPromise s = Some q \<Longrightarrow>
   getDelta_call s = await_promise q (length (calls s)) AwaitPrevious (s\<lparr>calls := calls s @ [None]\<rparr>)"
  by (simp add: getDelta_call_def Let_def)

lemma blocked_getDelta_call:
  assumes b: "blocked_on p c s"
  shows "blocked_on p c (getDelta_call s)"
proof -
  have p: "p < length (builds s)" and c: "c < length (calls s)"
    using b by (simp_all add: blocked_on_def)
  let ?s1 = "s\<lparr>calls := calls s @ [None]\<rparr>"
  show ?thesis
  proof (cases "currentBuildPromise s")
    case None
    show ?thesis
      unfolding getDelta_call_start [OF None]
    proof (rule blocked_frame [OF b])
      let ?t = "start_build (length (calls s)) ?s1"
      show "builds ?t ! p = builds s ! p" using p by (simp add: start_build_fields nth_append)
      show "length (builds s) \<le> length (builds ?t)" by (simp add: start_build_fields)
      show "calls ?t ! c = calls s ! c" using c by (simp add: start_build_fields nth_append)
      show "length (calls s) \<le> length (calls ?t)" by (simp add: start_build_fields)
      show "(p, c, AwaitPrevious) \<in> set (reactions s) \<Longrightarrow> (p, c, AwaitPrevious) \<in> set (reactions ?t)"
        by (simp add: start_build_fields)
      show "\<And>out. (c, AwaitPrevious, out) \<in> set (microtasks s) \<Longrightarrow>
                (c, AwaitPrevious, out) \<in> set (microtasks ?t)"
        by (simp add: start_build_fields)
      show "c \<notin> set (startedBy s) \<Longrightarrow> c \<notin> set (startedBy ?t)"
        using c by (simp add: start_build_fields)
      show "c \<notin> set (waiting s) \<Longrightarrow> c \<notin> set (waiting ?t)"
        using c by (auto simp: waiting_def start_build_fields)
    qed
  next
    case (Some q)
    let ?t = "await_promise q (length (calls s)) AwaitPrevious ?s1"
    have sub: "calls ?t = calls s @ [None]" "builds ?t = builds s" "startedBy ?t = startedBy s"
      "set (reactions s) \<subseteq> set (reactions ?t)" "set (microtasks s) \<subseteq> set (microtasks ?t)"
      "set (waiting ?t) \<subseteq> insert (length (calls s)) (set (waiting s))"
      using await_promise_fields [where q = q and c = "length (calls s)" and a = AwaitPrevious
          and s = ?s1]
        await_promise_waiting [where q = q and c = "length (calls s)" and a = AwaitPrevious
          and s = ?s1]
      by (simp_all add: waiting_def)
    show ?thesis
      unfolding getDelta_call_wait [OF Some]
    proof (rule blocked_frame [OF b])
      show "builds ?t ! p = builds s ! p" by (simp add: sub)
      show "length (builds s) \<le> length (builds ?t)" by (simp add: sub)
      show "calls ?t ! c = calls s ! c" using c by (simp add: sub nth_append)
      show "length (calls s) \<le> length (calls ?t)" by (simp add: sub)
      show "(p, c, AwaitPrevious) \<in> set (reactions s) \<Longrightarrow> (p, c, AwaitPrevious) \<in> set (reactions ?t)"
        using sub(4) by blast
      show "\<And>out. (c, AwaitPrevious, out) \<in> set (microtasks s) \<Longrightarrow>
                (c, AwaitPrevious, out) \<in> set (microtasks ?t)"
        using sub(5) by blast
      show "c \<notin> set (startedBy s) \<Longrightarrow> c \<notin> set (startedBy ?t)" by (simp add: sub)
      show "c \<notin> set (waiting s) \<Longrightarrow> c \<notin> set (waiting ?t)"
        using c sub(6) by auto
    qed
  qed
qed

lemma blocked_settle:
  assumes con: "consistent s" and b: "blocked_on p c s"
  shows "blocked_on p c (settle q out s)"
proof (cases "q < length (builds s) \<and> builds s ! q = None")
  case False
  then show ?thesis using b by (simp add: settle_idle)
next
  case True
  then have q: "q < length (builds s)" "builds s ! q = None" by simp_all
  note f = settle_fields [OF q]
  let ?t = "settle q out s"
  have pc: "p < length (builds s)" "c < length (calls s)"
    using b by (simp_all add: blocked_on_def)
  have ws: "set (waiting ?t) \<subseteq> set (waiting s)"
    unfolding waiting_settle [OF q] unfolding waiting_def by force
  show ?thesis
  proof (cases "q = p")
    case False
    show ?thesis
    proof (rule blocked_frame [OF b])
      show "builds ?t ! p = builds s ! p" using False by (simp add: f)
      show "length (builds s) \<le> length (builds ?t)" by (simp add: f)
      show "calls ?t ! c = calls s ! c" by (simp add: f)
      show "length (calls s) \<le> length (calls ?t)" by (simp add: f)
      show "(p, c, AwaitPrevious) \<in> set (reactions s) \<Longrightarrow> (p, c, AwaitPrevious) \<in> set (reactions ?t)"
        using False by (simp add: f)
      show "\<And>out. (c, AwaitPrevious, out) \<in> set (microtasks s) \<Longrightarrow>
                (c, AwaitPrevious, out) \<in> set (microtasks ?t)"
        by (simp add: f)
      show "c \<notin> set (startedBy s) \<Longrightarrow> c \<notin> set (startedBy ?t)" by (simp add: f)
      show "c \<notin> set (waiting s) \<Longrightarrow> c \<notin> set (waiting ?t)" using ws by blast
    qed
  next
    case True
    with q b have r: "(p, c, AwaitPrevious) \<in> set (reactions s)" "calls s ! c = None"
      "c \<notin> set (startedBy s)"
      by (simp_all add: blocked_on_def)
    have m: "(c, AwaitPrevious, out) \<in> set (microtasks ?t)"
    proof -
      have "(q, c, AwaitPrevious) \<in> set (reactions s)" using r(1) True by simp
      from settle_member [OF this, of out] show ?thesis by (simp add: f)
    qed
    have bt: "builds ?t ! p = Some out" using q unfolding True [symmetric] by (simp add: f)
    show ?thesis
      using pc r m bt by (cases out) (simp_all add: blocked_on_def f)
  qed
qed

lemma head_unique:
  assumes d: "distinct (waiting s)" and ms: "microtasks s = (c, a, out) # js"
    and x: "(c, a', out') \<in> set (microtasks s)"
  shows "a' = a \<and> out' = out"
proof -
  have "distinct (map (\<lambda>(c, a, out). c) (microtasks s))" using d by (simp add: waiting_def)
  then have "c \<notin> (\<lambda>(c, a, out). c) ` set js" by (simp add: ms)
  then have "(c, a', out') \<notin> set js" by force
  with x show ?thesis by (simp add: ms)
qed

lemma blocked_tick:
  assumes con: "consistent s" and b: "blocked_on p c s"
  shows "blocked_on p c (tick s)"
proof (cases "microtasks s")
  case Nil
  then show ?thesis using b by (simp add: tick_def)
next
  case (Cons j js)
  obtain c' a out where j: "j = (c', a, out)" by (cases j)
  have ms: "microtasks s = (c', a, out) # js" using Cons j by simp
  let ?s2 = "s\<lparr>microtasks := js\<rparr>"
  note pop = consistent_pop [OF con ms]
  have t: "tick s = resume (c', a, out) ?s2" by (simp add: tick_def ms)
  have pc: "p < length (builds s)" "c < length (calls s)"
    using b by (simp_all add: blocked_on_def)
  have w2: "set (waiting ?s2) \<subseteq> set (waiting s)" by (auto simp: set_waiting ms)
  show ?thesis
  proof (cases "c' = c")
    case False
    show ?thesis
      unfolding t
    proof (rule blocked_frame [OF b])
      let ?t = "resume (c', a, out) ?s2"
      show "builds ?t ! p = builds s ! p" using pc resume_fields(2) [of p ?s2 c' a out] by simp
      show "length (builds s) \<le> length (builds ?t)"
        using resume_fields(1) [of ?s2 c' a out] by simp
      show "calls ?t ! c = calls s ! c" using False resume_fields(4) [of c c' a out ?s2] by simp
      show "length (calls s) \<le> length (calls ?t)"
        using resume_fields(3) [of c' a out ?s2] by simp
      show "(p, c, AwaitPrevious) \<in> set (reactions s) \<Longrightarrow> (p, c, AwaitPrevious) \<in> set (reactions ?t)"
        using resume_fields(5) [of ?s2 c' a out] by auto
      show "\<And>o'. (c, AwaitPrevious, o') \<in> set (microtasks s) \<Longrightarrow>
                (c, AwaitPrevious, o') \<in> set (microtasks ?t)"
        using False by (simp add: resume_fields(6) ms)
      show "c \<notin> set (startedBy s) \<Longrightarrow> c \<notin> set (startedBy ?t)"
        using False resume_fields(7) [of c' a out ?s2] by auto
      show "c \<notin> set (waiting s) \<Longrightarrow> c \<notin> set (waiting ?t)"
        using False resume_waiting [of c' a out ?s2] w2 by auto
    qed
  next
    case True
    have inw: "c \<in> set (waiting s)" using in_waiting_m [of c a out s] ms True by simp
    have lens: "p < length (builds (tick s))" "c < length (calls (tick s))"
      using pc resume_fields(1) [of ?s2 c' a out] resume_fields(3) [of c' a out ?s2]
      by (simp_all add: t)
    have bp: "builds (tick s) ! p = builds s ! p"
      using pc resume_fields(2) [of p ?s2 c' a out] by (simp add: t)
    show ?thesis
    proof (cases "builds s ! p")
      case None
      then have "(p, c, AwaitPrevious) \<in> set (reactions s)" using b by (simp add: blocked_on_def)
      then have "c \<in> (\<lambda>(p, c, a). c) ` set (reactions s)" by force
      moreover have "c \<in> (\<lambda>(c, a, out). c) ` set (microtasks s)" using ms True by force
      ultimately have False
        using cD_dist [OF con] unfolding waiting_def distinct_append set_map by blast
      then show ?thesis ..
    next
      case (Some o')
      show ?thesis
      proof (cases o')
        case (Inr r)
        then show ?thesis using Some lens bp by (simp add: blocked_on_def)
      next
        case (Inl e)
        have ns: "c \<notin> set (startedBy s)" using b Some Inl by (simp add: blocked_on_def)
        have "(c, AwaitPrevious, Inl e) \<in> set (microtasks s) \<and> calls s ! c = None"
          using b Some Inl inw by (auto simp: blocked_on_def)
        then have job: "(c', AwaitPrevious, Inl e) \<in> set (microtasks s)" using True by simp
        from head_unique [OF cD_dist [OF con] ms job]
        have a: "a = AwaitPrevious" "out = Inl e" by simp_all
        have t': "tick s = ?s2\<lparr>calls := (calls ?s2)[c := Some (Inl e)]\<rparr>"
          using True by (simp add: t a)
        have "c \<notin> set (waiting (tick s))"
          using pop(2) True by (simp add: t' waiting_def)
        moreover have "calls (tick s) ! c = Some (Inl e)" using pc by (simp add: t')
        moreover have "c \<notin> set (startedBy (tick s))" using ns by (simp add: t')
        ultimately show ?thesis
          using Some Inl lens bp by (simp add: blocked_on_def)
      qed
    qed
  qed
qed

lemma blocked_step:
  "consistent s \<Longrightarrow> blocked_on p c s \<Longrightarrow> blocked_on p c (step ev s)"
  by (cases ev) (simp_all add: blocked_getDelta_call blocked_settle blocked_tick)

lemma blocked_run:
  "consistent s \<Longrightarrow> blocked_on p c s \<Longrightarrow> blocked_on p c (run evs s)"
proof (induction evs arbitrary: s)
  case Nil
  then show ?case by (simp add: run_def)
next
  case (Cons ev evs)
  have "blocked_on p c (run evs (step ev s))"
    using Cons.prems by (intro Cons.IH consistent_step blocked_step)
  then show ?case by (simp add: run_def)
qed

lemma drain_keeps:
  "consistent s \<Longrightarrow> blocked_on p c s \<Longrightarrow>
   consistent (drain s) \<and> blocked_on p c (drain s) \<and> microtasks (drain s) = []
   \<and> builds (drain s) ! p = builds s ! p"
proof (induction s rule: drain.induct)
  case (1 s)
  show ?case
  proof (cases "microtasks s = []")
    case True
    then show ?thesis using "1.prems" by simp
  next
    case False
    have con: "consistent (tick s)" using "1.prems"(1) by (rule consistent_tick)
    have b: "blocked_on p c (tick s)" using "1.prems" by (rule blocked_tick)
    obtain c' a out js where ms: "microtasks s = (c', a, out) # js"
      using False by (cases "microtasks s") auto
    have p: "p < length (builds s)" using "1.prems"(2) by (simp add: blocked_on_def)
    have "builds (tick s) ! p = builds s ! p"
      using p resume_fields(2) [of p "s\<lparr>microtasks := js\<rparr>" c' a out] by (simp add: tick_def ms)
    with "1.IH" [OF False con b] show ?thesis using False by simp
  qed
qed

lemma blocked_after_call:
  assumes con: "consistent s" and tok: "currentBuildPromise s = Some p" and pend: "builds s ! p = None"
  shows "blocked_on p (length (calls s)) (getDelta_call s)"
proof -
  have p: "p < length (builds s)" using cD_tok [OF con tok] .
  have eq: "getDelta_call s = s\<lparr>calls := calls s @ [None],
      reactions := reactions s @ [(p, length (calls s), AwaitPrevious)]\<rparr>"
    using tok p pend by (simp add: getDelta_call_def Let_def await_promise_def)
  show ?thesis
    using p pend startedBy_below [OF con] by (simp add: eq blocked_on_def)
qed

lemma calls_step_other:
  assumes "calls (step ev s) ! c \<noteq> calls s ! c" and c: "c < length (calls s)"
  obtains a out js where "ev = Tick" "microtasks s = (c, a, out) # js"
    "a = AwaitOwn \<or> (\<exists>e. out = Inl e)"
proof (cases ev)
  case Call
  have "calls (getDelta_call s) = calls s @ [None]"
    by (simp add: getDelta_call_def Let_def start_build_fields await_promise_fields split: option.splits)
  then show ?thesis using assms Call by (simp add: nth_append)
next
  case (Settle q out)
  have "calls (settle q out s) = calls s" by (simp add: settle_def)
  then show ?thesis using assms Settle by simp
next
  case Tick
  show ?thesis
  proof (cases "microtasks s")
    case Nil
    then show ?thesis using assms Tick by (simp add: tick_def)
  next
    case (Cons j js)
    obtain c' a out where j: "j = (c', a, out)" by (cases j)
    have ms: "microtasks s = (c', a, out) # js" using Cons j by simp
    have t: "tick s = resume (c', a, out) (s\<lparr>microtasks := js\<rparr>)" by (simp add: tick_def ms)
    have "c' = c"
      using assms(1) resume_fields(4) [of c c' a out "s\<lparr>microtasks := js\<rparr>"] Tick t by auto
    moreover have "a = AwaitOwn \<or> (\<exists>e. out = Inl e)"
      using assms(1) Tick t by (cases a; cases out) (simp_all add: start_build_fields)
    ultimately show ?thesis using that Tick ms by blast
  qed
qed

subsection \<open>Runs and examples\<close>

text \<open>
  Unfolding a run event by event, and the equations that evaluate the model on the
  example collaborators. Two overlapping calls are served in turn.
\<close>

lemma run_Nil: "run [] s = s"
  by (simp add: run_def)

lemma run_Cons: "run (ev # evs) s = run evs (step ev s)"
  by (simp add: run_def)

lemmas ex_defs = example_metadata_def example_script_def example_minified_def example_broken_def
  example_ids_def example_resolver_def example_bundler_def example_transformer_def
  new_DeltaTransformer_def example_sched_def

lemmas model_defs = getDelta_inner_def getAppend_def getPrepend_def prepend_modules_def
  append_ids_def require_entry_def transformModules_def transformModule_def wrap_step_def
  getMetadata_def only_raw_mappings_def or_empty_def Promise_all_def Promise_all2_def
  new_Map_def Map_set_def Map_get_def filter_Boolean_def Number_toString_def digit_def
  getInverseDependencies_def Let_def

lemmas ex_defs2 = ex_defs example_diff_def example_reset_def example_failing_def


lemma two_calls_run_in_turn:
  "running (run [Call, Call] constructed) = [0]
   \<and> running (run [Call, Call, Settle 0 (Inr r), Tick, Tick] constructed) = [1]
   \<and> startedBy (run [Call, Call, Settle 0 (Inr r), Tick, Tick] constructed) = [0, 1]"
  by (simp add: running_def run_Nil run_Cons constructed_def getDelta_call_def start_build_def
      await_promise_def settle_def tick_def Let_def upt_rec)

section \<open>The claims\<close>

subsection \<open>Claims about the public \<^verbatim>\<open>getDelta\<close>\<close>

text \<open>
  C1 (at most one computation runs at a time, in arrival order), at three calls.
  Three calls arrive while the first build is pending; the first build resolves and
  the three calls are resumed in turn. The second and the third call both pass line
  132 (an \<^verbatim>\<open>if\<close>, not a loop, so the third call does not look at the promise the second
  one has just stored) and each starts a build: builds 1 and 2 run at the same time.
\<close>

theorem three_calls_run_two_builds:
  "running (run [Call, Call, Call, Settle 0 (Inr r), Tick, Tick, Tick] constructed) = [1, 2]
   \<and> startedBy (run [Call, Call, Call, Settle 0 (Inr r), Tick, Tick, Tick] constructed) = [0, 1, 2]
   \<and> calls (run [Call, Call, Call, Settle 0 (Inr r), Tick, Tick, Tick] constructed)
       = [Some (Inr r), None, None]"
  by (simp add: running_def run_Nil run_Cons constructed_def getDelta_call_def start_build_def
      await_promise_def settle_def tick_def Let_def upt_rec)

text \<open>
  C2: in every reachable state, when a call that has started its computation settles
  (its \<^verbatim>\<open>getDelta()\<close> returns or throws), the stored build promise is empty in the very
  state in which it settles; the outcome is that of a computation the call started,
  resolved or rejected alike; and a call that arrives next starts its computation at
  once, it is not left waiting.
\<close>

theorem getDelta_clears_build_promise:
  fixes evs ev c out
  defines "s \<equiv> run evs constructed"
  defines "t \<equiv> step ev (run evs constructed)"
  assumes started: "c \<in> set (startedBy s)"
    and pending: "calls s ! c = None"
    and settles: "calls t ! c = Some out"
  shows "currentBuildPromise t = None
    \<and> (\<exists>p. p < length (builds s) \<and> startedBy s ! p = c \<and> builds s ! p = Some out)
    \<and> startedBy (getDelta_call t) = startedBy t @ [length (calls t)]"
proof -
  have con: "consistent s" unfolding s_def by (rule reachable_consistent)
  have c: "c < length (calls s)" using cD_sb [OF con started] .
  have t: "t = step ev s" by (simp add: s_def t_def)
  have neq: "calls (step ev s) ! c \<noteq> calls s ! c" using pending settles t by simp
  from calls_step_other [OF neq c]
  obtain a o' js where ev: "ev = Tick" and ms: "microtasks s = (c, a, o') # js"
    and a: "a = AwaitOwn \<or> (\<exists>e. o' = Inl e)"
    by blast
  have own: "a = AwaitOwn"
  proof (cases a)
    case AwaitPrevious
    then have "(c, AwaitPrevious, o') \<in> set (microtasks s)" by (simp add: ms)
    from cD_mp [OF con this] started show ?thesis by simp
  qed
  have tt: "t = s\<lparr>microtasks := js, currentBuildPromise := None, calls := (calls s)[c := Some o']\<rparr>"
    by (simp add: t ev tick_def ms own)
  then have o': "o' = out" using settles c by simp
  have "(c, AwaitOwn, out) \<in> set (microtasks s)" by (simp add: ms own o')
  from cD_mo [OF con this]
  have 2: "\<exists>p. p < length (builds s) \<and> startedBy s ! p = c \<and> builds s ! p = Some out" .
  have 1: "currentBuildPromise t = None" by (simp add: tt)
  then have 3: "startedBy (getDelta_call t) = startedBy t @ [length (calls t)]"
    by (simp add: getDelta_call_start start_build_fields)
  from 1 2 3 show ?thesis by blast
qed

text \<open>C2 at a build that fails: the call throws and the promise is cleared.\<close>

theorem getDelta_clears_build_promise_witness:
  "0 \<in> set (startedBy (run [Call, Settle 0 (Inl (Error ''SyntaxError''))] constructed))
   \<and> calls (run [Call, Settle 0 (Inl (Error ''SyntaxError''))] constructed) ! 0 = None
   \<and> calls (step Tick (run [Call, Settle 0 (Inl (Error ''SyntaxError''))] constructed)) ! 0
       = Some (Inl (Error ''SyntaxError''))
   \<and> currentBuildPromise (step Tick (run [Call, Settle 0 (Inl (Error ''SyntaxError''))] constructed))
       = None"
proof -
  let ?s = "run [Call, Settle 0 (Inl (Error ''SyntaxError''))] constructed"
  have h1: "0 \<in> set (startedBy ?s)"
    by (simp add: run_Nil run_Cons constructed_def getDelta_call_def start_build_def settle_def Let_def)
  have h2: "calls ?s ! 0 = None"
    by (simp add: run_Nil run_Cons constructed_def getDelta_call_def start_build_def settle_def Let_def)
  have h3: "calls (step Tick ?s) ! 0 = Some (Inl (Error ''SyntaxError''))"
    by (simp add: run_Nil run_Cons constructed_def getDelta_call_def start_build_def settle_def
        tick_def Let_def)
  from getDelta_clears_build_promise [OF h1 h2 h3] h1 h2 h3 show ?thesis by blast
qed

text \<open>
  A call that arrives in a reachable state whose stored build promise \<open>p\<close> is pending
  waits for \<open>p\<close>. Whatever happens afterwards, if \<open>p\<close> rejected with \<open>e\<close> then the call has
  started no computation and is pending or rejected with \<open>e\<close>; and once the microtask
  queue has run, it is rejected with \<open>e\<close>, still without a computation of its own.
\<close>

lemma call_blocked_on_stored_build_rejects:
  fixes evs evs' p e
  defines "s \<equiv> run evs constructed"
  defines "c \<equiv> length (calls (run evs constructed))"
  defines "s' \<equiv> run evs' (getDelta_call (run evs constructed))"
  assumes tok: "currentBuildPromise s = Some p"
    and pend: "builds s ! p = None"
    and rej: "builds s' ! p = Some (Inl e)"
  shows "c \<notin> set (startedBy s')
    \<and> (calls s' ! c = None \<or> calls s' ! c = Some (Inl e))
    \<and> calls (drain s') ! c = Some (Inl e)
    \<and> c \<notin> set (startedBy (drain s'))"
proof -
  have con: "consistent s" unfolding s_def by (rule reachable_consistent)
  have con1: "consistent (getDelta_call s)" by (rule consistent_getDelta_call [OF con])
  have b1: "blocked_on p c (getDelta_call s)"
    unfolding c_def s_def [symmetric] by (rule blocked_after_call [OF con tok pend])
  have s': "s' = run evs' (getDelta_call s)" by (simp add: s'_def s_def)
  have con': "consistent s'" unfolding s' by (rule consistent_run [OF con1])
  have b': "blocked_on p c s'" unfolding s' by (rule blocked_run [OF con1 b1])
  from drain_keeps [OF con' b']
  have bd: "blocked_on p c (drain s')" and md: "microtasks (drain s') = []"
    and pd: "builds (drain s') ! p = Some (Inl e)"
    using rej by simp_all
  have 1: "c \<notin> set (startedBy s') \<and> (calls s' ! c = None \<or> calls s' ! c = Some (Inl e))"
    using b' rej by (auto simp: blocked_on_def)
  have 2: "calls (drain s') ! c = Some (Inl e) \<and> c \<notin> set (startedBy (drain s'))"
    using bd pd md by (auto simp: blocked_on_def)
  from 1 2 show ?thesis by blast
qed

text \<open>At two calls: the second arrives while the first build is pending, which fails.\<close>

lemma call_blocked_on_stored_build_rejects_example:
  "currentBuildPromise (run [Call] constructed) = Some 0
   \<and> builds (run [Call] constructed) ! 0 = None
   \<and> builds (run [Settle 0 (Inl (Error ''SyntaxError''))] (getDelta_call (run [Call] constructed))) ! 0
       = Some (Inl (Error ''SyntaxError''))
   \<and> calls (drain (run [Settle 0 (Inl (Error ''SyntaxError''))]
         (getDelta_call (run [Call] constructed)))) ! 1 = Some (Inl (Error ''SyntaxError''))
   \<and> 1 \<notin> set (startedBy (drain (run [Settle 0 (Inl (Error ''SyntaxError''))]
         (getDelta_call (run [Call] constructed)))))"
proof -
  have h1: "currentBuildPromise (run [Call] constructed) = Some 0"
    by (simp add: run_Nil run_Cons constructed_def getDelta_call_def start_build_def Let_def)
  have h2: "builds (run [Call] constructed) ! 0 = None"
    by (simp add: run_Nil run_Cons constructed_def getDelta_call_def start_build_def Let_def)
  have h3: "builds (run [Settle 0 (Inl (Error ''SyntaxError''))]
      (getDelta_call (run [Call] constructed))) ! 0 = Some (Inl (Error ''SyntaxError''))"
    by (simp add: run_Nil run_Cons constructed_def getDelta_call_def start_build_def
        await_promise_def settle_def Let_def)
  have len: "length (calls (run [Call] constructed)) = 1"
    by (simp add: run_Nil run_Cons constructed_def getDelta_call_def start_build_def Let_def)
  from call_blocked_on_stored_build_rejects [OF h1 h2 h3] h1 h2 h3 show ?thesis
    unfolding len by blast
qed

text \<open>
  C10 (a call that arrives while a previous computation is pending is rejected with
  that computation's error, and starts none of its own), after three overlapping calls.
  Builds 1 and 2 run together; build 2 resolves first, and the \<^verbatim>\<open>finally\<close> block of its
  call clears the field while build 1 is still pending. A call that arrives now finds
  the field empty and starts build 3 at once. When build 1 rejects, only the call that
  started it is rejected: the late call stays pending with its own computation, and
  returns that computation's result.
\<close>

theorem late_call_is_not_rejected:
  "running (run [Call, Call, Call, Settle 0 (Inr r), Tick, Tick, Tick, Settle 2 (Inr r), Tick]
      constructed) = [1]
   \<and> currentBuildPromise
       (run [Call, Call, Call, Settle 0 (Inr r), Tick, Tick, Tick, Settle 2 (Inr r), Tick]
          constructed) = None
   \<and> startedBy
       (run [Call, Call, Call, Settle 0 (Inr r), Tick, Tick, Tick, Settle 2 (Inr r), Tick,
             Call, Settle 1 (Inl e), Tick] constructed) = [0, 1, 2, 3]
   \<and> calls
       (drain (run [Call, Call, Call, Settle 0 (Inr r), Tick, Tick, Tick, Settle 2 (Inr r), Tick,
             Call, Settle 1 (Inl e), Tick] constructed))
     = [Some (Inr r), Some (Inl e), Some (Inr r), None]
   \<and> calls
       (run [Call, Call, Call, Settle 0 (Inr r), Tick, Tick, Tick, Settle 2 (Inr r), Tick,
             Call, Settle 1 (Inl e), Tick, Settle 3 (Inr r), Tick] constructed)
     = [Some (Inr r), Some (Inl e), Some (Inr r), Some (Inr r)]"
  by (simp add: running_def run_Nil run_Cons constructed_def getDelta_call_def start_build_def
      await_promise_def settle_def tick_def Let_def upt_rec)

subsection \<open>Claims about one delta computation\<close>

text \<open>
  C3: when a module of the modified set has its path in the deleted set, the delta
  of the response holds a tombstone (\<^verbatim>\<open>null\<close>) at the id of that path, and no
  transformed entry at that id.
\<close>

theorem modified_and_deleted_is_tombstone:
  assumes "getDelta_inner sched this = Inr r"
    and "dc_getDelta (deltaCalculator this) = Inr d"
    and "m \<in> snd ` set (modified d)"
    and "m_path m \<in> set (deleted d)"
  shows "Map_get (delta r) (getModuleId this (m_path m)) = Some None
    \<and> (\<forall>e. (getModuleId this (m_path m), Some e) \<notin> set (delta r))"
  using deleted_is_tombstone [OF assms(1, 2, 4)] by blast

text \<open>C3 at a diff whose only module is both modified and deleted.\<close>

theorem modified_and_deleted_is_tombstone_witness:
  "getDelta_inner example_sched (example_transformer [] example_diff)
     = Inr (projr (getDelta_inner example_sched (example_transformer [] example_diff)))
   \<and> dc_getDelta (deltaCalculator (example_transformer [] example_diff)) = Inr example_diff
   \<and> example_script ''/a.js'' \<in> snd ` set (modified example_diff)
   \<and> m_path (example_script ''/a.js'') \<in> set (deleted example_diff)
   \<and> Map_get (delta (projr (getDelta_inner example_sched (example_transformer [] example_diff)))) 1
       = Some None"
proof -
  let ?T = "example_transformer [] example_diff"
  have h1: "getDelta_inner example_sched ?T = Inr (projr (getDelta_inner example_sched ?T))"
    by (simp add: ex_defs2 model_defs)
  have h2: "dc_getDelta (deltaCalculator ?T) = Inr example_diff"
    by (simp add: example_transformer_def new_DeltaTransformer_def)
  have h3: "example_script ''/a.js'' \<in> snd ` set (modified example_diff)"
    by (simp add: example_diff_def)
  have h4: "m_path (example_script ''/a.js'') \<in> set (deleted example_diff)"
    by (simp add: example_diff_def example_script_def)
  have i: "getModuleId ?T (m_path (example_script ''/a.js'')) = 1"
    by (simp add: ex_defs)
  from modified_and_deleted_is_tombstone [OF h1 h2 h3 h4] h1 h2 h3 h4 show ?thesis
    unfolding i by blast
qed

text \<open>
  C4: the entry that the pipeline produces for a module has as its map the map of the
  wrap step when that is an array of raw mappings, and no map (\<^verbatim>\<open>undefined\<close>) for every
  other shape: it is never a standard source map.
\<close>

theorem transformModule_map_raw_or_absent:
  assumes "transformModule sched this m resolver opts deps = Inr (i, entry)"
  shows "\<exists>e name0 metadata wrapped.
           entry = Some e
         \<and> wrap_step this m resolver name0 metadata (or_empty (Map_get deps (m_path m))) = Inr wrapped
         \<and> map_js e = (case w_map wrapped of RawMappings ms \<Rightarrow> RawMappings ms | _ \<Rightarrow> Undefined)
         \<and> (map_js e = Undefined \<or> (\<exists>ms. map_js e = RawMappings ms))
         \<and> (\<forall>s. map_js e \<noteq> StandardMap s) \<and> map_js e \<noteq> Null"
proof -
  from assms obtain name0 metadata wrapped where
    w: "wrap_step this m resolver name0 metadata (or_empty (Map_get deps (m_path m))) = Inr wrapped"
    and e: "entry = Some \<lparr>code = w_code wrapped, map_js = only_raw_mappings (w_map wrapped),
                           name = name0, path = m_path m, source = md_source metadata\<rparr>"
    by (auto simp: transformModule_def split: sum.splits)
  let ?e = "\<lparr>code = w_code wrapped, map_js = only_raw_mappings (w_map wrapped),
             name = name0, path = m_path m, source = md_source metadata\<rparr>"
  have 1: "map_js ?e = (case w_map wrapped of RawMappings ms \<Rightarrow> RawMappings ms | _ \<Rightarrow> Undefined)"
    by (simp add: only_raw_mappings_def)
  have 2: "map_js ?e = Undefined \<or> (\<exists>ms. map_js ?e = RawMappings ms)"
    by (cases "w_map wrapped") (simp_all add: only_raw_mappings_def)
  have 3: "\<forall>s. map_js ?e \<noteq> StandardMap s"
    by (cases "w_map wrapped") (simp_all add: only_raw_mappings_def)
  have 4: "map_js ?e \<noteq> Null"
    by (cases "w_map wrapped") (simp_all add: only_raw_mappings_def)
  from e w 1 2 3 4 show ?thesis by blast
qed

text \<open>C4 at a module whose transform answers a standard source map: the entry has no map.\<close>

theorem transformModule_map_raw_or_absent_witness:
  "transformModule example_sched (example_transformer [] example_diff) (example_minified ''/c.js'')
     example_resolver (JSTransformerOptions 0) []
   = Inr (4, Some \<lparr>code = ''/c.js'', map_js = Undefined, name = ''/c.js'', path = ''/c.js'',
                   source = ''/c.js''\<rparr>)
   \<and> md_map (projr (read (example_minified ''/c.js'') (JSTransformerOptions 0)))
       = StandardMap ''version 3''"
proof -
  have h: "transformModule example_sched (example_transformer [] example_diff)
      (example_minified ''/c.js'') example_resolver (JSTransformerOptions 0) []
    = Inr (4, Some \<lparr>code = ''/c.js'', map_js = Undefined, name = ''/c.js'', path = ''/c.js'',
                   source = ''/c.js''\<rparr>)"
    by (simp add: ex_defs2 model_defs)
  have m: "md_map (projr (read (example_minified ''/c.js'') (JSTransformerOptions 0)))
       = StandardMap ''version 3''"
    by (simp add: ex_defs)
  from transformModule_map_raw_or_absent [OF h] h m show ?thesis by blast
qed

text \<open>
  C5: the response carries the reset flag of the diff unchanged; without a reset its
  \<open>pre\<close> and \<open>post\<close> are empty, and with a reset they are what \<^verbatim>\<open>_getPrepend\<close> and
  \<^verbatim>\<open>_getAppend\<close> compute, whatever the modified set is.
\<close>

theorem pre_post_follow_reset:
  assumes "getDelta_inner sched this = Inr r"
  shows "\<exists>d. dc_getDelta (deltaCalculator this) = Inr d \<and> reset r = d_reset d \<and>
           (if d_reset d
            then getPrepend sched this (getTransformerOptions (deltaCalculator this))
                   (getDependencyPairs (deltaCalculator this)) = Inr (pre r)
               \<and> getAppend this (getDependencyPairs (deltaCalculator this))
                   (getModulesByName (deltaCalculator this)) = Inr (post r)
            else pre r = [] \<and> post r = [])"
  using assms by (rule getDelta_inner_Inr) blast

text \<open>C5 at a diff without a reset, and at a reset whose modified set is empty.\<close>

theorem pre_post_follow_reset_witness:
  "getDelta_inner example_sched (example_transformer [] example_diff)
     = Inr (projr (getDelta_inner example_sched (example_transformer [] example_diff)))
   \<and> \<not> reset (projr (getDelta_inner example_sched (example_transformer [] example_diff)))
   \<and> pre (projr (getDelta_inner example_sched (example_transformer [] example_diff))) = []
   \<and> post (projr (getDelta_inner example_sched (example_transformer [] example_diff))) = []
   \<and> getDelta_inner example_sched (example_transformer [] example_reset)
     = Inr (projr (getDelta_inner example_sched (example_transformer [] example_reset)))
   \<and> reset (projr (getDelta_inner example_sched (example_transformer [] example_reset)))
   \<and> map fst (pre (projr (getDelta_inner example_sched (example_transformer [] example_reset))))
       = [10, 20, 21]
   \<and> map fst (post (projr (getDelta_inner example_sched (example_transformer [] example_reset))))
       = [3]"
proof -
  let ?A = "example_transformer [] example_diff"
  let ?B = "example_transformer [] example_reset"
  have a: "getDelta_inner example_sched ?A = Inr (projr (getDelta_inner example_sched ?A))"
    by (simp add: ex_defs2 model_defs)
  have b: "getDelta_inner example_sched ?B = Inr (projr (getDelta_inner example_sched ?B))"
    by (simp add: ex_defs2 model_defs upt_rec)
  have da: "dc_getDelta (deltaCalculator ?A) = Inr example_diff"
    and db: "dc_getDelta (deltaCalculator ?B) = Inr example_reset"
    by (simp_all add: example_transformer_def new_DeltaTransformer_def)
  have ra: "\<not> d_reset example_diff" and rb: "d_reset example_reset"
    by (simp_all add: example_diff_def example_reset_def)
  have pb: "getPrepend example_sched ?B (getTransformerOptions (deltaCalculator ?B))
      (getDependencyPairs (deltaCalculator ?B)) = Inr p \<Longrightarrow> map fst p = [10, 20, 21]" for p
    by (auto simp: ex_defs2 model_defs upt_rec)
  have qb: "getAppend ?B (getDependencyPairs (deltaCalculator ?B))
      (getModulesByName (deltaCalculator ?B)) = Inr p \<Longrightarrow> map fst p = [3]" for p
    by (auto simp: ex_defs2 model_defs)
  from pre_post_follow_reset [OF a] da ra
  have 1: "\<not> reset (projr (getDelta_inner example_sched ?A))
    \<and> pre (projr (getDelta_inner example_sched ?A)) = []
    \<and> post (projr (getDelta_inner example_sched ?A)) = []"
    by auto
  from pre_post_follow_reset [OF b] db rb pb qb
  have 2: "reset (projr (getDelta_inner example_sched ?B))
    \<and> map fst (pre (projr (getDelta_inner example_sched ?B))) = [10, 20, 21]
    \<and> map fst (post (projr (getDelta_inner example_sched ?B))) = [3]"
    by auto
  from a b 1 2 show ?thesis by blast
qed



text \<open>
  C8: the translation maps each entry \<open>(path, dependents)\<close> to the entry whose key is
  the id of the path, as a string, and whose value is the ids of the dependents in
  their order, nothing removed and nothing sorted; the output object holds these
  entries (the later one where two keys agree). In particular the map with the one
  entry \<^verbatim>\<open>"/a.js": {"/b.js"}\<close> translates to \<^verbatim>\<open>id("/a.js"): [id("/b.js")]\<close>.
\<close>

theorem getInverseDependencies_translates:
  "getInverseDependencies this ivs =
     map_of (rev (map (\<lambda>(p, dependents).
                         (Number_toString (getModuleId this p), map (getModuleId this) dependents))
                    ivs))
   \<and> getInverseDependencies this [(p, dependents)] =
       [Number_toString (getModuleId this p) \<mapsto> map (getModuleId this) dependents]
   \<and> getInverseDependencies this [(''/a.js'', [''/b.js''])] =
       [Number_toString (getModuleId this ''/a.js'') \<mapsto> [getModuleId this ''/b.js'']]"
proof -
  have 1: "getInverseDependencies this ivs =
     map_of (rev (map (\<lambda>(p, dependents).
                         (Number_toString (getModuleId this p), map (getModuleId this) dependents))
                    ivs))" for ivs
    unfolding getInverseDependencies_def
    using getInverseDependencies_fold [of "\<lambda>k. Number_toString (getModuleId this k)"
        "\<lambda>ds. map (getModuleId this) ds" Map.empty ivs]
    by simp
  have 2: "getInverseDependencies this [(p, dependents)] =
       [Number_toString (getModuleId this p) \<mapsto> map (getModuleId this) dependents]" for p dependents
    by (simp add: getInverseDependencies_def)
  from 1 2 show ?thesis by simp
qed

text \<open>
  C6 as stated fails. With \<^verbatim>\<open>runBeforeMainModule = ["E", "B"]\<close>, where \<^verbatim>\<open>E\<close> names the
  entry module itself (id 3), the keys of \<open>post\<close> are 3, 2: the \<^verbatim>\<open>Map\<close> keeps the first
  position of a key, so the entry point is not the last one. And the code of an entry
  is \<^verbatim>\<open>;require(3);\<close>, with a semicolon in front, not \<^verbatim>\<open>require(3);\<close>.
\<close>

theorem getAppend_counterexample:
  "map_sum id (map fst)
     (getAppend (example_transformer [''E'', ''B''] example_reset) []
        (getModulesByName (deltaCalculator (example_transformer [''E'', ''B''] example_reset))))
   = Inr [3, 2]
   \<and> getModuleForPath (bundler (example_transformer [''E'', ''B''] example_reset)) ''/index.js''
     = Inr (example_script ''/index.js'')
   \<and> getModuleId (example_transformer [''E'', ''B''] example_reset) ''/index.js'' = 3
   \<and> map_sum id (map (map_option code \<circ> snd))
     (getAppend (example_transformer [''E'', ''B''] example_reset) []
        (getModulesByName (deltaCalculator (example_transformer [''E'', ''B''] example_reset))))
   = Inr [Some '';require(3);'', Some '';require(2);'']"
  by (simp add: ex_defs2 model_defs)

text \<open>
  C6, amended: when the ids of the resolved modules and of the entry point are
  pairwise distinct, \<open>post\<close> holds, in this order, the ids of the modules named by
  \<^verbatim>\<open>runBeforeMainModule\<close> (names that the lookup does not know are skipped) and the id
  of the entry point last; the entry of id \<open>i\<close> has the code \<^verbatim>\<open>;require(i);\<close>, the name
  \<^verbatim>\<open>require-i\<close>, the path \<^verbatim>\<open>require-i.js\<close> and the map \<^verbatim>\<open>null\<close>.
\<close>

theorem getAppend_requires_in_order:
  assumes "getResolver (bundler this) = Inr resolver"
    and "getModuleForPath (bundler this) (getAbsolutePath resolver (entryFile (bundleOptions this)))
         = Inr entryPointModule"
    and "distinct (append_ids this modulesByName entryPointModule)"
  shows "\<exists>post0. getAppend this dependencyPairs modulesByName = Inr post0
    \<and> map fst post0 =
        map (\<lambda>m. getModuleId this (m_path m))
          (filter_Boolean (map (Map_get modulesByName) (runBeforeMainModule (bundleOptions this))))
        @ [getModuleId this (m_path entryPointModule)]
    \<and> last (map fst post0) = getModuleId this (m_path entryPointModule)
    \<and> map snd post0 =
        map (\<lambda>i. Some \<lparr>code = '';require('' @ Number_toString i @ '');'', map_js = Null,
                        name = ''require-'' @ Number_toString i,
                        path = ''require-'' @ Number_toString i @ ''.js'',
                        source = '';require('' @ Number_toString i @ '');''\<rparr>)
          (map fst post0)"
proof -
  let ?ids = "append_ids this modulesByName entryPointModule"
  have keys: "map fst (map require_entry ids) = ids" for ids
    by (induction ids) (simp_all add: require_entry_def Let_def)
  have "distinct (map fst (map require_entry ?ids))" using assms(3) by (simp only: keys)
  then have nm: "new_Map (map require_entry ?ids) = map require_entry ?ids"
    by (rule new_Map_distinct)
  have g: "getAppend this dependencyPairs modulesByName = Inr (map require_entry ?ids)"
    by (simp add: getAppend_def assms(1, 2) nm)
  have ids: "?ids = map (\<lambda>m. getModuleId this (m_path m))
          (filter_Boolean (map (Map_get modulesByName) (runBeforeMainModule (bundleOptions this))))
        @ [getModuleId this (m_path entryPointModule)]"
    by (simp add: append_ids_def filter_Boolean_def)
  have vals: "map snd (map require_entry ids) =
        map (\<lambda>i. Some \<lparr>code = '';require('' @ Number_toString i @ '');'', map_js = Null,
                        name = ''require-'' @ Number_toString i,
                        path = ''require-'' @ Number_toString i @ ''.js'',
                        source = '';require('' @ Number_toString i @ '');''\<rparr>) ids" for ids
    by (induction ids) (simp_all add: require_entry_def Let_def)
  have l: "last ?ids = getModuleId this (m_path entryPointModule)" by (simp add: ids)
  show ?thesis
  proof (intro exI conjI)
    show "getAppend this dependencyPairs modulesByName = Inr (map require_entry ?ids)"
      by (rule g)
    show "map fst (map require_entry ?ids) =
        map (\<lambda>m. getModuleId this (m_path m))
          (filter_Boolean (map (Map_get modulesByName) (runBeforeMainModule (bundleOptions this))))
        @ [getModuleId this (m_path entryPointModule)]"
      unfolding keys by (rule ids)
    show "last (map fst (map require_entry ?ids)) = getModuleId this (m_path entryPointModule)"
      unfolding keys by (rule l)
    show "map snd (map require_entry ?ids) =
        map (\<lambda>i. Some \<lparr>code = '';require('' @ Number_toString i @ '');'', map_js = Null,
                        name = ''require-'' @ Number_toString i,
                        path = ''require-'' @ Number_toString i @ ''.js'',
                        source = '';require('' @ Number_toString i @ '');''\<rparr>)
          (map fst (map require_entry ?ids))"
      unfolding keys by (rule vals)
  qed
qed

text \<open>C6, amended, at \<^verbatim>\<open>["A", "missing", "B"]\<close> and the entry point \<^verbatim>\<open>/index.js\<close>.\<close>

theorem getAppend_requires_in_order_witness:
  "getResolver (bundler (example_transformer [''A'', ''missing'', ''B''] example_reset))
     = Inr example_resolver
   \<and> getModuleForPath (bundler (example_transformer [''A'', ''missing'', ''B''] example_reset))
       (getAbsolutePath example_resolver
          (entryFile (bundleOptions (example_transformer [''A'', ''missing'', ''B''] example_reset))))
     = Inr (example_script ''/index.js'')
   \<and> distinct (append_ids (example_transformer [''A'', ''missing'', ''B''] example_reset)
       (getModulesByName (deltaCalculator (example_transformer [] example_reset)))
       (example_script ''/index.js''))
   \<and> map_sum id (map fst)
       (getAppend (example_transformer [''A'', ''missing'', ''B''] example_reset) []
          (getModulesByName (deltaCalculator (example_transformer [] example_reset))))
     = Inr [1, 2, 3]"
proof -
  let ?T = "example_transformer [''A'', ''missing'', ''B''] example_reset"
  let ?names = "getModulesByName (deltaCalculator (example_transformer [] example_reset))"
  have h1: "getResolver (bundler ?T) = Inr example_resolver"
    by (simp add: example_transformer_def new_DeltaTransformer_def example_bundler_def)
  have h2: "getModuleForPath (bundler ?T)
       (getAbsolutePath example_resolver (entryFile (bundleOptions ?T)))
     = Inr (example_script ''/index.js'')"
    by (simp add: example_transformer_def new_DeltaTransformer_def example_bundler_def
        example_resolver_def)
  have ids: "append_ids ?T ?names (example_script ''/index.js'') = [1, 2, 3]"
    by (simp add: ex_defs2 model_defs)
  have h3: "distinct (append_ids ?T ?names (example_script ''/index.js''))"
    by (simp add: ids)
  have i: "map (\<lambda>m. getModuleId ?T (m_path m))
          (filter_Boolean (map (Map_get ?names) (runBeforeMainModule (bundleOptions ?T))))
        @ [getModuleId ?T (m_path (example_script ''/index.js''))] = [1, 2, 3]"
    using ids by (simp add: append_ids_def filter_Boolean_def)
  from getAppend_requires_in_order [OF h1 h2 h3, of "[]"]
  have "map_sum id (map fst) (getAppend ?T [] ?names) = Inr [1, 2, 3]"
    unfolding i by auto
  with h1 h2 h3 show ?thesis by blast
qed

text \<open>
  C9 as stated fails: the polyfills of the platform, \<^verbatim>\<open>getPolyfills({platform})\<close>, come
  before those of the list \<^verbatim>\<open>polyfillModuleNames\<close>, which does not depend on the
  platform, not after them.
\<close>

theorem getPrepend_counterexample:
  "getPolyfills (example_transformer [] example_reset)
     (platform (bundleOptions (example_transformer [] example_reset))) = [''/ios-polyfill.js'']
   \<and> polyfillModuleNames (example_transformer [] example_reset) = [''/polyfill.js'']
   \<and> map_sum id (map (map_option path \<circ> snd))
       (getPrepend example_sched (example_transformer [] example_reset) (JSTransformerOptions 0) [])
     = Inr [Some ''/require.js'', Some ''/ios-polyfill.js'', Some ''/polyfill.js'']"
  by (simp add: ex_defs2 model_defs upt_rec)

text \<open>
  C9, amended: the modules of the preamble are the module system scripts of the
  resolver (for the dev flag), then a polyfill module for each name of
  \<^verbatim>\<open>getPolyfills({platform})\<close>, then one for each name of \<^verbatim>\<open>polyfillModuleNames\<close>; when
  their ids are pairwise distinct, \<open>pre\<close> holds in this order what the module transform
  pipeline produces for each of them.
\<close>

theorem getPrepend_order:
  assumes "getResolver (bundler this) = Inr resolver"
    and "getPrepend sched this opts deps = Inr pre0"
    and "distinct (map (\<lambda>m. getModuleId this (m_path m)) (prepend_modules this resolver))"
  shows "prepend_modules this resolver =
      getModuleSystemDependencies resolver (dev (bundleOptions this))
      @ map (\<lambda>n. createPolyfill resolver n n []) (getPolyfills this (platform (bundleOptions this)))
      @ map (\<lambda>n. createPolyfill resolver n n []) (polyfillModuleNames this)
    \<and> map fst pre0 = map (\<lambda>m. getModuleId this (m_path m)) (prepend_modules this resolver)
    \<and> map Inr pre0 =
        map (\<lambda>m. transformModule sched this m resolver opts deps) (prepend_modules this resolver)"
proof -
  let ?ms = "prepend_modules this resolver"
  have t: "transformModules sched this ?ms resolver opts deps = Inr pre0"
    using assms(1, 2) by (simp add: getPrepend_def)
  from t obtain pairs where
    ps: "map (\<lambda>m. transformModule sched this m resolver opts deps) ?ms = map Inr pairs"
    and pre0: "pre0 = new_Map pairs"
    by (rule transformModules_Inr)
  have keys: "map fst pairs = map (\<lambda>m. getModuleId this (m_path m)) ?ms"
    by (rule transformModules_keys [OF ps])
  then have "distinct (map fst pairs)" using assms(3) by simp
  then have "new_Map pairs = pairs" by (rule new_Map_distinct)
  then have eq: "pre0 = pairs" using pre0 by simp
  have 1: "?ms = getModuleSystemDependencies resolver (dev (bundleOptions this))
      @ map (\<lambda>n. createPolyfill resolver n n []) (getPolyfills this (platform (bundleOptions this)))
      @ map (\<lambda>n. createPolyfill resolver n n []) (polyfillModuleNames this)"
    by (simp add: prepend_modules_def Let_def)
  from 1 keys ps eq show ?thesis by simp
qed

text \<open>C9, amended, at the example transformer.\<close>

theorem getPrepend_order_witness:
  "getResolver (bundler (example_transformer [] example_reset)) = Inr example_resolver
   \<and> getPrepend example_sched (example_transformer [] example_reset) (JSTransformerOptions 0) []
     = Inr (projr (getPrepend example_sched (example_transformer [] example_reset)
                     (JSTransformerOptions 0) []))
   \<and> distinct (map (\<lambda>m. getModuleId (example_transformer [] example_reset) (m_path m))
        (prepend_modules (example_transformer [] example_reset) example_resolver))
   \<and> map fst (projr (getPrepend example_sched (example_transformer [] example_reset)
                     (JSTransformerOptions 0) [])) = [10, 20, 21]"
proof -
  let ?T = "example_transformer [] example_reset"
  have h1: "getResolver (bundler ?T) = Inr example_resolver"
    by (simp add: example_transformer_def new_DeltaTransformer_def example_bundler_def)
  have h2: "getPrepend example_sched ?T (JSTransformerOptions 0) []
     = Inr (projr (getPrepend example_sched ?T (JSTransformerOptions 0) []))"
    by (simp add: ex_defs2 model_defs upt_rec)
  have ids: "map (\<lambda>m. getModuleId ?T (m_path m)) (prepend_modules ?T example_resolver) = [10, 20, 21]"
    by (simp add: ex_defs2 model_defs)
  have h3: "distinct (map (\<lambda>m. getModuleId ?T (m_path m)) (prepend_modules ?T example_resolver))"
    by (simp add: ids)
  from getPrepend_order [OF h1 h2 h3]
  have "map fst (projr (getPrepend example_sched ?T (JSTransformerOptions 0) [])) = [10, 20, 21]"
    unfolding ids by blast
  with h1 h2 h3 show ?thesis by blast
qed

end
